theory Spec2Isabelle
  imports Main
begin

section \<open>JavaScript strings\<close>

text \<open>
  A JavaScript string is a sequence of UTF-16 code units; \<open>length\<close>, indexing,
  \<open>startsWith\<close>, \<open>includes\<close> (here \<open>str_includes\<close>), \<open>split\<close> and a regular expression without the \<open>u\<close>
  flag all work on code units. A code unit is modelled as a natural number, and \<open>js\<close>
  turns an ASCII literal into its code units. The code unit of the backslash is
  written \<open>bs\<close>, since a string literal of the logic cannot hold one.
\<close>

type_synonym jsstring = "nat list"

definition js :: "string \<Rightarrow> jsstring" where
  "js s = map of_char s"

definition bs :: jsstring where
  "bs = [92]"

text \<open>White space and line terminators: what \<open>trim\<close> strips and \<open>\s\<close> matches.\<close>

definition isWhiteSpace :: "nat \<Rightarrow> bool" where
  "isWhiteSpace c \<longleftrightarrow>
     c = 9 \<or> c = 10 \<or> c = 11 \<or> c = 12 \<or> c = 13 \<or> c = 32 \<or> c = 160 \<or> c = 5760 \<or>
     (8192 \<le> c \<and> c \<le> 8202) \<or> c = 8232 \<or> c = 8233 \<or> c = 8239 \<or> c = 8287 \<or>
     c = 12288 \<or> c = 65279"

definition isDigit :: "nat \<Rightarrow> bool" where
  "isDigit c \<longleftrightarrow> 48 \<le> c \<and> c \<le> 57"

text \<open>\<open>text.trim().length === 0\<close>: nothing but white space.\<close>

definition trim_is_empty :: "jsstring \<Rightarrow> bool" where
  "trim_is_empty s = list_all isWhiteSpace s"

fun startsWith :: "jsstring \<Rightarrow> jsstring \<Rightarrow> bool" where
  "startsWith s [] = True"
| "startsWith [] (p # ps) = False"
| "startsWith (c # s) (p # ps) = (c = p \<and> startsWith s ps)"

fun str_includes :: "jsstring \<Rightarrow> jsstring \<Rightarrow> bool" where
  "str_includes [] k = (k = [])"
| "str_includes (c # s) k = (startsWith (c # s) k \<or> str_includes s k)"

text \<open>\<open>s.split(sep)\<close> for a separator of one code unit; the empty string gives \<open>['']\<close>.\<close>

fun split :: "jsstring \<Rightarrow> nat \<Rightarrow> jsstring list" where
  "split [] sep = [[]]"
| "split (c # s) sep =
     (if c = sep then [] # split s sep
      else (case split s sep of [] \<Rightarrow> [[c]] | p # ps \<Rightarrow> (c # p) # ps))"

text \<open>\<open>xs.join(' ')\<close>.\<close>

fun join_sp :: "jsstring list \<Rightarrow> jsstring" where
  "join_sp [] = []"
| "join_sp [x] = x"
| "join_sp (x # y # ys) = x @ [32] @ join_sp (y # ys)"

text \<open>
  \<open>s.toLowerCase()\<close>. The model maps the ASCII capitals, and the two other code units
  whose lower case contains an ASCII letter (U+0130 and the Kelvin sign U+212A). Every
  other cased letter has a lower case outside ASCII and outside the CJK and kana blocks;
  the model leaves those code units as they are, which does not change whether one of
  the keywords of \<open>isLikelyPII\<close> occurs.
\<close>

definition toLowerCase1 :: "nat \<Rightarrow> jsstring" where
  "toLowerCase1 c =
     (if 65 \<le> c \<and> c \<le> 90 then [c + 32]
      else if c = 304 then [105, 775]
      else if c = 8490 then [107]
      else [c])"

definition toLowerCase :: "jsstring \<Rightarrow> jsstring" where
  "toLowerCase s = concat (map toLowerCase1 s)"

text \<open>\<open>s.replace(/[-\s]/g, '')\<close>: the hyphens and the white space removed.\<close>

definition strip_separators :: "jsstring \<Rightarrow> jsstring" where
  "strip_separators s = filter (\<lambda>c. \<not> (c = 45 \<or> isWhiteSpace c)) s"

text \<open>\<open>xs.indexOf(x)\<close>: the first index, or \<open>-1\<close>.\<close>

fun indexOf :: "'a list \<Rightarrow> 'a \<Rightarrow> int" where
  "indexOf [] x = -1"
| "indexOf (y # ys) x = (if y = x then 0 else (let i = indexOf ys x in if i < 0 then -1 else i + 1))"

text \<open>\<open>a || b\<close> on optional strings: the empty string and \<open>undefined\<close> are falsy.\<close>

definition truthy :: "jsstring option \<Rightarrow> bool" where
  "truthy v = (case v of None \<Rightarrow> False | Some s \<Rightarrow> s \<noteq> [])"

definition or_else :: "jsstring option \<Rightarrow> jsstring \<Rightarrow> jsstring" where
  "or_else v d = (case v of None \<Rightarrow> d | Some s \<Rightarrow> if s = [] then d else s)"

section \<open>types/index.ts\<close>

datatype MaskingType = MOSAIC | BLUR | BLACKOUT | PIXELATE

record PIIPattern =
  name :: jsstring
  pattern :: jsstring
  maskingType :: MaskingType
  enabled :: bool

datatype Sensitivity = low | medium | high

record ExtensionSettings =
  settings_enabled :: bool
  maskingTypes :: "jsstring \<rightharpoonup> MaskingType"
  patterns :: "PIIPattern list"
  realTimeProcessing :: bool
  sensitivity :: Sensitivity

text \<open>
  An element is modelled by its reference (what \<open>===\<close> compares) and by what the
  detector reads of the document through it: the tag name; the text of the labels and
  the \<open>name\<close> and \<open>placeholder\<close> attributes of the inputs of the closest form
  (\<open>None\<close> when there is no such form); the reference and text content of each child
  of the parent element (\<open>None\<close> when there is no parent).
\<close>

record HTMLElement =
  ref :: nat
  tagName :: jsstring
  closest_form :: "(jsstring option list \<times> (jsstring option \<times> jsstring option) list) option"
  parent_children :: "(nat \<times> jsstring option) list option"

record Text =
  parentElement :: "HTMLElement option"
  textContent :: "jsstring option"

record PIIMatch =
  matchText :: jsstring
  startIndex :: nat
  endIndex :: nat
  type :: jsstring
  element :: HTMLElement
  match_maskingType :: MaskingType

section \<open>utils/pii-patterns.ts\<close>

definition formKeywords :: "jsstring list" where
  "formKeywords =
     [[0x540D, 0x524D], js ''name'', js ''email'', js ''phone'', [0x96FB, 0x8A71],
      [0x4F4F, 0x6240], js ''address'', js ''birthday'']"

definition piiKeywords :: "jsstring list" where
  "piiKeywords =
     [[0x500B, 0x4EBA, 0x60C5, 0x5831], [0x6C0F, 0x540D], [0x9023, 0x7D61, 0x5148],
      [0x751F, 0x5E74, 0x6708, 0x65E5], [0x30D7, 0x30ED, 0x30D5, 0x30A3, 0x30FC, 0x30EB]]"

definition isLikelyPII :: "jsstring \<Rightarrow> jsstring \<Rightarrow> bool" where
  "isLikelyPII txt context =
     (let lowerContext = toLowerCase context;
          hasFormContext = list_ex (\<lambda>keyword. str_includes lowerContext keyword) formKeywords;
          hasPIIContext = list_ex (\<lambda>keyword. str_includes lowerContext keyword) piiKeywords
      in hasFormContext \<or> hasPIIContext)"

definition filterFalsePositives :: "jsstring list \<Rightarrow> jsstring \<Rightarrow> jsstring list" where
  "filterFalsePositives matches ty =
     (if ty = js ''phone'' then
        filter (\<lambda>m. let cleaned = strip_separators m
                    in length cleaned \<ge> 10 \<and> \<not> startsWith cleaned (js ''000'')) matches
      else if ty = js ''creditCard'' then
        filter (\<lambda>m. let cleaned = strip_separators m
                    in length cleaned = 16 \<and> \<not> startsWith cleaned (js ''0000'')) matches
      else if ty = js ''japaneseName'' then
        filter (\<lambda>m. length m \<ge> 2 \<and> length m \<le> 8) matches
      else matches)"

section \<open>utils/pii-detector.ts: the validators\<close>

definition isValidEmail :: "jsstring \<Rightarrow> bool" where
  "isValidEmail email =
     (case split email 64 of
        [local, domain] \<Rightarrow> length local > 0 \<and> length domain > 0 \<and> str_includes domain (js ''.'')
      | _ \<Rightarrow> False)"

definition isValidPhone :: "jsstring \<Rightarrow> bool" where
  "isValidPhone phone =
     (let cleaned = strip_separators phone in
      if length cleaned < 10 \<or> length cleaned > 11 then False
      else if startsWith cleaned (js ''0000'') \<or> cleaned = js ''0000000000'' then False
      else True)"

text \<open>
  \<open>parseInt\<close> of a string of one code unit: the digit, or \<open>NaN\<close> (\<open>None\<close>). A sum
  that met \<open>NaN\<close> stays \<open>NaN\<close>, and \<open>NaN % 10 === 0\<close> is false.
\<close>

definition parseInt1 :: "nat \<Rightarrow> nat option" where
  "parseInt1 c = (if isDigit c then Some (c - 48) else None)"

fun luhn_loop :: "jsstring \<Rightarrow> bool \<Rightarrow> nat option \<Rightarrow> nat option" where
  "luhn_loop [] isEven acc = acc"
| "luhn_loop (c # cs) isEven acc =
     (let digit = parseInt1 c;
          digit = (if isEven
                   then map_option (\<lambda>d. if d * 2 > 9 then d * 2 - 9 else d * 2) digit
                   else digit);
          acc = (case acc of None \<Rightarrow> None
                   | Some t \<Rightarrow> (case digit of None \<Rightarrow> None | Some d \<Rightarrow> Some (t + d)))
      in luhn_loop cs (\<not> isEven) acc)"

text \<open>The loop runs from the last code unit to the first.\<close>

definition luhnCheck :: "jsstring \<Rightarrow> bool" where
  "luhnCheck cardNumber =
     (case luhn_loop (rev cardNumber) False (Some 0) of
        None \<Rightarrow> False
      | Some acc \<Rightarrow> acc mod 10 = 0)"

text \<open>\<open>/^(\d)\1+$/.test(cleaned)\<close>: one digit, repeated at least once more.\<close>

definition all_same_digit :: "jsstring \<Rightarrow> bool" where
  "all_same_digit s =
     (case s of [] \<Rightarrow> False
      | d # rest \<Rightarrow> isDigit d \<and> rest \<noteq> [] \<and> list_all (\<lambda>c. c = d) rest)"

definition isValidCreditCard :: "jsstring \<Rightarrow> bool" where
  "isValidCreditCard cardNumber =
     (let cleaned = strip_separators cardNumber in
      if length cleaned < 13 \<or> length cleaned > 19 then False
      else if all_same_digit cleaned then False
      else luhnCheck cleaned)"

text \<open>
  The character class of \<open>namePattern\<close>: U+4E00 to U+9FAF, U+3005, U+3007, seven single
  kana, U+3041 to U+3096 and U+30A1 to U+30FA.
\<close>

definition isNameChar :: "nat \<Rightarrow> bool" where
  "isNameChar c \<longleftrightarrow>
     (0x4E00 \<le> c \<and> c \<le> 0x9FAF) \<or> c = 0x3005 \<or> c = 0x3007 \<or>
     c = 0x3072 \<or> c = 0x3089 \<or> c = 0x304C \<or> c = 0x306A \<or>
     c = 0x30AB \<or> c = 0x30BF \<or> c = 0x30CA \<or>
     (0x3041 \<le> c \<and> c \<le> 0x3096) \<or> (0x30A1 \<le> c \<and> c \<le> 0x30FA)"

definition isValidJapaneseName :: "jsstring \<Rightarrow> bool" where
  "isValidJapaneseName nm =
     (if length nm < 2 \<or> length nm > 8 then False
      else nm \<noteq> [] \<and> list_all isNameChar nm)"

definition isValidMatch :: "jsstring \<Rightarrow> jsstring \<Rightarrow> bool" where
  "isValidMatch txt ty =
     (if ty = js ''email'' then isValidEmail txt
      else if ty = js ''phone'' then isValidPhone txt
      else if ty = js ''creditCard'' then isValidCreditCard txt
      else if ty = js ''japaneseName'' then isValidJapaneseName txt
      else True)"

section \<open>utils/pii-patterns.ts: the default patterns\<close>

text \<open>
  The pattern sources, code unit by code unit. The ideographs and kana of the sources
  are written by their code units.
\<close>

definition JAPANESE_NAME :: PIIPattern where
  "JAPANESE_NAME =
     \<lparr>name = js ''japaneseName'',
      pattern = js ''['' @ [0x4E00] @ js ''-'' @ [0x9FAF, 0x3005, 0x3007] @ js '']{1,4}'' @ bs @ js ''s*[''
        @ [0x4E00] @ js ''-'' @ [0x9FAF, 0x3005, 0x3007] @ js '']{1,4}(?=['' @ [0x3055, 0x3093]
        @ js ''|'' @ [0x69D8] @ js ''|'' @ [0x6C0F] @ js ''|'' @ [0x541B] @ js ''|''
        @ [0x3061, 0x3083, 0x3093] @ js ''|'' @ [0x304F, 0x3093] @ js '']|$|'' @ bs @ js ''s)'',
      maskingType = BLUR, enabled = True\<rparr>"

definition EMAIL :: PIIPattern where
  "EMAIL =
     \<lparr>name = js ''email'',
      pattern = js ''[a-zA-Z0-9._%+-]+@[a-zA-Z0-9.-]+'' @ bs @ js ''.[a-zA-Z]{2,}'',
      maskingType = BLUR, enabled = True\<rparr>"

definition PHONE_JP :: PIIPattern where
  "PHONE_JP =
     \<lparr>name = js ''phone'',
      pattern = js ''(?:(?:'' @ bs @ js ''+81|0)'' @ bs @ js ''s?(?:'' @ bs @ js ''d{1,4}[-'' @ bs
        @ js ''s]?)?'' @ bs @ js ''d{1,4}[-'' @ bs @ js ''s]?'' @ bs @ js ''d{4}|'' @ bs
        @ js ''d{3,4}[-'' @ bs @ js ''s]?'' @ bs @ js ''d{1,4}[-'' @ bs @ js ''s]?'' @ bs @ js ''d{4})'',
      maskingType = MOSAIC, enabled = True\<rparr>"

definition CREDIT_CARD :: PIIPattern where
  "CREDIT_CARD =
     \<lparr>name = js ''creditCard'',
      pattern = bs @ js ''b(?:4'' @ bs @ js ''d{3}|5[1-5]'' @ bs @ js ''d{2}|3[47]'' @ bs
        @ js ''d{2}|6011)['' @ bs @ js ''s-]?'' @ bs @ js ''d{4}['' @ bs @ js ''s-]?'' @ bs
        @ js ''d{4}['' @ bs @ js ''s-]?'' @ bs @ js ''d{4}'' @ bs @ js ''b'',
      maskingType = PIXELATE, enabled = True\<rparr>"

definition POSTAL_CODE_JP :: PIIPattern where
  "POSTAL_CODE_JP =
     \<lparr>name = js ''postalCode'',
      pattern = bs @ js ''b'' @ bs @ js ''d{3}[-'' @ bs @ js ''s]?'' @ bs @ js ''d{4}'' @ bs @ js ''b'',
      maskingType = BLACKOUT, enabled = True\<rparr>"

definition IP_ADDRESS :: PIIPattern where
  "IP_ADDRESS =
     \<lparr>name = js ''ipAddress'',
      pattern = bs @ js ''b(?:(?:25[0-5]|2[0-4][0-9]|[01]?[0-9][0-9]?)'' @ bs
        @ js ''.){3}(?:25[0-5]|2[0-4][0-9]|[01]?[0-9][0-9]?)'' @ bs @ js ''b'',
      maskingType = BLUR, enabled = False\<rparr>"

definition ADDRESS_JP :: PIIPattern where
  "ADDRESS_JP =
     \<lparr>name = js ''address'',
      pattern = js ''['' @ [0x90FD, 0x9053, 0x5E9C, 0x770C] @ js ''].*?[''
        @ [0x5E02, 0x533A, 0x753A, 0x6751, 0x90E1] @ js ''][''
        @ [0x4E00] @ js ''-'' @ [0x9FAF] @ js ''0-9''
        @ [0x4E00, 0x4E8C, 0x4E09, 0x56DB, 0x4E94, 0x516D, 0x4E03, 0x516B, 0x4E5D, 0x5341, 0x767E, 0x5343]
        @ js '']+(?:'' @ [0x4E01, 0x76EE] @ js ''|'' @ [0x756A, 0x5730] @ js ''|'' @ [0x53F7] @ js '')?'',
      maskingType = BLACKOUT, enabled = True\<rparr>"

definition MY_NUMBER :: PIIPattern where
  "MY_NUMBER =
     \<lparr>name = js ''myNumber'',
      pattern = bs @ js ''b'' @ bs @ js ''d{4}['' @ bs @ js ''s-]?'' @ bs @ js ''d{4}['' @ bs
        @ js ''s-]?'' @ bs @ js ''d{4}'' @ bs @ js ''b'',
      maskingType = BLACKOUT, enabled = True\<rparr>"

definition BANK_ACCOUNT :: PIIPattern where
  "BANK_ACCOUNT =
     \<lparr>name = js ''bankAccount'',
      pattern = bs @ js ''b'' @ bs @ js ''d{7}'' @ bs @ js ''b'',
      maskingType = PIXELATE, enabled = False\<rparr>"

definition BIRTH_DATE :: PIIPattern where
  "BIRTH_DATE =
     \<lparr>name = js ''birthDate'',
      pattern = js ''(?:19|20)'' @ bs @ js ''d{2}['' @ [0x5E74] @ js ''/-](?:0?[1-9]|1[0-2])[''
        @ [0x6708] @ js ''/-](?:0?[1-9]|[12]'' @ bs @ js ''d|3[01])['' @ [0x65E5] @ js '']?'',
      maskingType = BLUR, enabled = True\<rparr>"

definition getAllPatterns :: "PIIPattern list" where
  "getAllPatterns =
     [EMAIL, PHONE_JP, CREDIT_CARD, POSTAL_CODE_JP, JAPANESE_NAME, ADDRESS_JP, MY_NUMBER,
      BIRTH_DATE, IP_ADDRESS, BANK_ACCOUNT]"

section \<open>utils/pii-detector.ts: the detector\<close>

record DetectionContext =
  ctx_element :: HTMLElement
  ctx_textContent :: jsstring
  elementType :: jsstring
  formContext :: "jsstring option"
  nearbyText :: "jsstring option"

text \<open>The detector's fields \<open>settings\<close> and \<open>patterns\<close>.\<close>

record PIIDetector =
  this_settings :: ExtensionSettings
  this_patterns :: "PIIPattern list"

definition initializePatterns :: "ExtensionSettings \<Rightarrow> PIIPattern list" where
  "initializePatterns s =
     (let defaultPatterns = getAllPatterns in
      if length (patterns s) > 0 then patterns s else defaultPatterns)"

definition new_PIIDetector :: "ExtensionSettings \<Rightarrow> PIIDetector" where
  "new_PIIDetector s = \<lparr>this_settings = s, this_patterns = initializePatterns s\<rparr>"

definition updateSettings :: "ExtensionSettings \<Rightarrow> PIIDetector \<Rightarrow> PIIDetector" where
  "updateSettings s this = this\<lparr>this_settings := s, this_patterns := initializePatterns s\<rparr>"

definition getFormContext :: "HTMLElement \<Rightarrow> jsstring" where
  "getFormContext el =
     (case closest_form el of
        None \<Rightarrow> []
      | Some (label_texts, input_attrs) \<Rightarrow>
          (let labels = map (\<lambda>l. or_else l []) label_texts;
               inputs = map (\<lambda>(n, p). join_sp [or_else n [], or_else p []]) input_attrs
           in toLowerCase (join_sp (labels @ inputs))))"

text \<open>\<open>xs.slice(lo, hi)\<close> for bounds within the array.\<close>

definition slice :: "'a list \<Rightarrow> int \<Rightarrow> int \<Rightarrow> 'a list" where
  "slice xs lo hi = take (nat (hi - lo)) (drop (nat lo) xs)"

definition getNearbyText :: "HTMLElement \<Rightarrow> jsstring" where
  "getNearbyText el =
     (case parent_children el of
        None \<Rightarrow> []
      | Some siblings \<Rightarrow>
          (let currentIndex = indexOf (map fst siblings) (ref el);
               nearbyElements = slice siblings (max 0 (currentIndex - 2))
                                  (min (int (length siblings)) (currentIndex + 3))
           in toLowerCase (join_sp (map (\<lambda>e. or_else (snd e) []) nearbyElements))))"

definition buildDetectionContext :: "HTMLElement \<Rightarrow> jsstring \<Rightarrow> DetectionContext" where
  "buildDetectionContext el txt =
     \<lparr>ctx_element = el, ctx_textContent = txt, elementType = toLowerCase (tagName el),
      formContext = Some (getFormContext el), nearbyText = Some (getNearbyText el)\<rparr>"

definition highConfidenceElements :: "jsstring list" where
  "highConfidenceElements = [js ''input'', js ''textarea'', js ''span'', js ''div'']"

definition isMediumConfidenceMatch :: "jsstring \<Rightarrow> PIIPattern \<Rightarrow> DetectionContext \<Rightarrow> bool" where
  "isMediumConfidenceMatch txt p context =
     (if truthy (formContext context) \<and> isLikelyPII txt (or_else (formContext context) []) then True
      else if elementType context \<in> set highConfidenceElements then True
      else False)"

definition shouldIncludeMatch ::
  "PIIDetector \<Rightarrow> jsstring \<Rightarrow> PIIPattern \<Rightarrow> DetectionContext \<Rightarrow> bool" where
  "shouldIncludeMatch this mt p context =
     (let sens = sensitivity (this_settings this) in
      if \<not> isValidMatch mt (name p) then False
      else if sens = high then True
      else if sens = low then
        isLikelyPII mt (or_else (formContext context) (or_else (nearbyText context) []))
      else isMediumConfidenceMatch mt p context)"

definition getMaskingType :: "PIIDetector \<Rightarrow> jsstring \<Rightarrow> MaskingType" where
  "getMaskingType this ty =
     (case maskingTypes (this_settings this) ty of None \<Rightarrow> BLUR | Some m \<Rightarrow> m)"

subsection \<open>The host's regular expressions\<close>

text \<open>
  \<open>new RegExp(source, 'g')\<close> and \<open>text.matchAll(re)\<close> belong to the JavaScript host, not
  to the repository. The detector takes them as a parameter: \<open>RegExp_new\<close> gives the
  compiled expression, or \<open>None\<close> where the constructor throws \<open>SyntaxError\<close>;
  \<open>matchAll\<close> gives, in order, the index and the matched text of every match. What is
  proved of the detector for every host holds of the real one.
\<close>

record 'r RegExpHost =
  RegExp_new :: "jsstring \<Rightarrow> 'r option"
  matchAll :: "'r \<Rightarrow> jsstring \<Rightarrow> (nat \<times> jsstring) list"

datatype error = SyntaxError

text \<open>The matches one pattern contributes: the inner \<open>forEach\<close> of \<open>detectInText\<close>.\<close>

definition pattern_matches ::
  "PIIDetector \<Rightarrow> PIIPattern \<Rightarrow> DetectionContext \<Rightarrow> (nat \<times> jsstring) list \<Rightarrow> PIIMatch list" where
  "pattern_matches this p context regexMatches =
     map (\<lambda>(index, mt).
            \<lparr>matchText = mt, startIndex = index, endIndex = index + length mt, type = name p,
             element = ctx_element context, match_maskingType = getMaskingType this (name p)\<rparr>)
         (filter (\<lambda>(index, mt). shouldIncludeMatch this mt p context) regexMatches)"

text \<open>
  The outer \<open>forEach\<close> of \<open>detectInText\<close> over the patterns, with the matches pushed so
  far. Nothing catches what \<open>new RegExp\<close> throws, so the error ends the loop.
\<close>

fun detectInText_loop ::
  "'r RegExpHost \<Rightarrow> PIIDetector \<Rightarrow> DetectionContext \<Rightarrow> PIIPattern list \<Rightarrow> PIIMatch list
     \<Rightarrow> error + PIIMatch list" where
  "detectInText_loop h this context [] matches = Inr matches"
| "detectInText_loop h this context (p # ps) matches =
     (if \<not> enabled p then detectInText_loop h this context ps matches
      else (case RegExp_new h (pattern p) of
              None \<Rightarrow> Inl SyntaxError
            | Some globalPattern \<Rightarrow>
                detectInText_loop h this context ps
                  (matches @ pattern_matches this p context
                     (matchAll h globalPattern (ctx_textContent context)))))"

definition detectInText ::
  "'r RegExpHost \<Rightarrow> PIIDetector \<Rightarrow> DetectionContext \<Rightarrow> error + PIIMatch list" where
  "detectInText h this context = detectInText_loop h this context (this_patterns this) []"

subsection \<open>Post-processing\<close>

definition isOverlapping :: "PIIMatch \<Rightarrow> PIIMatch \<Rightarrow> bool" where
  "isOverlapping match1 match2 \<longleftrightarrow>
     \<not> (endIndex match1 \<le> startIndex match2 \<or> endIndex match2 \<le> startIndex match1)"

definition priorityOrder :: "jsstring list" where
  "priorityOrder =
     [js ''creditCard'', js ''myNumber'', js ''email'', js ''phone'', js ''address'',
      js ''japaneseName'']"

definition shouldReplaceMatch :: "PIIMatch \<Rightarrow> PIIMatch \<Rightarrow> bool" where
  "shouldReplaceMatch existing newMatch =
     (if length (matchText newMatch) > length (matchText existing) then True
      else (let existingPriority = indexOf priorityOrder (type existing);
                newPriority = indexOf priorityOrder (type newMatch)
            in newPriority < existingPriority))"

text \<open>
  \<open>result.find(p)\<close> together with \<open>result.indexOf\<close> of what it found: the first element
  that satisfies \<open>p\<close>, with its index. The matches are distinct objects, so the index of
  the object found is the index where it was found.
\<close>

fun find_first :: "('a \<Rightarrow> bool) \<Rightarrow> 'a list \<Rightarrow> (nat \<times> 'a) option" where
  "find_first p [] = None"
| "find_first p (x # xs) =
     (if p x then Some (0, x)
      else (case find_first p xs of None \<Rightarrow> None | Some (i, y) \<Rightarrow> Some (Suc i, y)))"

text \<open>One round of the \<open>forEach\<close> of \<open>removeDuplicateMatches\<close>.\<close>

definition removeDuplicate_step :: "PIIMatch list \<Rightarrow> PIIMatch \<Rightarrow> PIIMatch list" where
  "removeDuplicate_step result m =
     (case find_first (\<lambda>existing. ref (element existing) = ref (element m) \<and>
                                  isOverlapping existing m) result of
        None \<Rightarrow> result @ [m]
      | Some (index, overlapping) \<Rightarrow>
          if shouldReplaceMatch overlapping m then result[index := m] else result)"

definition removeDuplicateMatches :: "PIIMatch list \<Rightarrow> PIIMatch list" where
  "removeDuplicateMatches matches = foldl removeDuplicate_step [] matches"

text \<open>
  \<open>Array.prototype.sort\<close> with a comparator. The language fixes the result (the stable
  sort) where the comparator is consistent, and leaves the order to the implementation
  where it is not. The model is the insertion sort: each element in turn moves left
  past the elements of the sorted prefix that compare greater. The sorted prefix is
  held last element first. An engine may order differently where the comparator is not
  consistent, as the comparator of \<open>postProcessMatches\<close> is between two elements; the
  sort of V8 on short arrays is given in its own section below, where the two are
  compared.
\<close>

fun insert_left :: "('a \<Rightarrow> 'a \<Rightarrow> int) \<Rightarrow> 'a \<Rightarrow> 'a list \<Rightarrow> 'a list" where
  "insert_left cmp x [] = [x]"
| "insert_left cmp x (y # ys) = (if cmp y x > 0 then y # insert_left cmp x ys else x # y # ys)"

fun sort_loop :: "('a \<Rightarrow> 'a \<Rightarrow> int) \<Rightarrow> 'a list \<Rightarrow> 'a list \<Rightarrow> 'a list" where
  "sort_loop cmp [] prefix_rev = rev prefix_rev"
| "sort_loop cmp (x # xs) prefix_rev = sort_loop cmp xs (insert_left cmp x prefix_rev)"

definition Array_sort :: "('a \<Rightarrow> 'a \<Rightarrow> int) \<Rightarrow> 'a list \<Rightarrow> 'a list" where
  "Array_sort cmp xs = sort_loop cmp xs []"

text \<open>The comparator of \<open>postProcessMatches\<close>.\<close>

definition compareMatches :: "PIIMatch \<Rightarrow> PIIMatch \<Rightarrow> int" where
  "compareMatches a b =
     (if ref (element a) \<noteq> ref (element b) then 0
      else int (startIndex a) - int (startIndex b))"

definition postProcessMatches :: "PIIMatch list \<Rightarrow> PIIMatch list" where
  "postProcessMatches matches =
     (let filtered = removeDuplicateMatches matches in Array_sort compareMatches filtered)"

subsection \<open>detectPII\<close>

text \<open>The \<open>forEach\<close> of \<open>detectPII\<close> over the text nodes, with the matches pushed so far.\<close>

fun detectPII_loop ::
  "'r RegExpHost \<Rightarrow> PIIDetector \<Rightarrow> Text list \<Rightarrow> PIIMatch list \<Rightarrow> error + PIIMatch list" where
  "detectPII_loop h this [] matches = Inr matches"
| "detectPII_loop h this (textNode # rest) matches =
     (case parentElement textNode of
        None \<Rightarrow> detectPII_loop h this rest matches
      | Some el \<Rightarrow>
          (let txt = or_else (textContent textNode) [] in
           if trim_is_empty txt then detectPII_loop h this rest matches
           else (case detectInText h this (buildDetectionContext el txt) of
                   Inl e \<Rightarrow> Inl e
                 | Inr nodeMatches \<Rightarrow> detectPII_loop h this rest (matches @ nodeMatches))))"

definition detectPII :: "'r RegExpHost \<Rightarrow> PIIDetector \<Rightarrow> Text list \<Rightarrow> error + PIIMatch list" where
  "detectPII h this textNodes =
     (case detectPII_loop h this textNodes [] of
        Inl e \<Rightarrow> Inl e
      | Inr matches \<Rightarrow> Inr (postProcessMatches matches))"

section \<open>A model of the host's regular expressions\<close>

text \<open>
  The closed statements below run the detector on concrete text, so they need a
  concrete host. This one follows the pattern semantics of ECMAScript for an
  expression without flags other than \<open>g\<close>, over UTF-16 code units: a backtracking
  matcher in continuation-passing style, as the language specification defines it.
  Capture groups are matched as groups but not recorded; back-references, named
  groups, look-behind and the \<open>\c\<close>, \<open>\x\<close>, \<open>\u\<close> escapes are not covered, and the parser
  rejects them as it rejects a malformed source.
\<close>

subsection \<open>Character sets\<close>

datatype cset = CRange nat nat | CAny "cset list" | CNot cset

fun cset_member :: "nat \<Rightarrow> cset \<Rightarrow> bool" where
  "cset_member c (CRange lo hi) = (lo \<le> c \<and> c \<le> hi)"
| "cset_member c (CAny cs) = list_ex (cset_member c) cs"
| "cset_member c (CNot a) = (\<not> cset_member c a)"

definition cs_digit :: cset where
  "cs_digit = CRange 48 57"

definition cs_word :: cset where
  "cs_word = CAny [CRange 97 122, CRange 65 90, CRange 48 57, CRange 95 95]"

definition cs_space :: cset where
  "cs_space =
     CAny [CRange 9 13, CRange 32 32, CRange 160 160, CRange 5760 5760, CRange 8192 8202,
           CRange 8232 8233, CRange 8239 8239, CRange 8287 8287, CRange 12288 12288,
           CRange 65279 65279]"

text \<open>What \<open>.\<close> does not match: the line terminators.\<close>

definition cs_line_terminator :: cset where
  "cs_line_terminator = CAny [CRange 10 10, CRange 13 13, CRange 8232 8233]"

subsection \<open>The matcher\<close>

datatype regex =
    Empty
  | Chars cset
  | Seq regex regex
  | Alt regex regex
  | Repeat regex nat "nat option" bool
  | AssertStart
  | AssertEnd
  | WordBoundary bool
  | Lookahead bool regex

text \<open>
  A match state: the end index reached, the code unit before it (\<open>None\<close> at index 0)
  and the input from it on.
\<close>

datatype mstate = MState nat "nat option" jsstring

fun endIndex_of :: "mstate \<Rightarrow> nat" where
  "endIndex_of (MState e p r) = e"

type_synonym continuation = "mstate \<Rightarrow> mstate option"

type_synonym matcher = "mstate \<Rightarrow> continuation \<Rightarrow> mstate option"

definition is_word_char :: "nat option \<Rightarrow> bool" where
  "is_word_char c = (case c of None \<Rightarrow> False | Some u \<Rightarrow> cset_member u cs_word)"

text \<open>
  RepeatMatcher of the language specification. An iteration that matched the empty
  string once the minimum is reached fails, so every round either lowers the minimum
  or moves forward: the minimum plus the length of the remaining input bounds the rounds,
  and \<open>bound\<close> starts above it.
\<close>

fun RepeatMatcher ::
  "nat \<Rightarrow> matcher \<Rightarrow> nat \<Rightarrow> nat option \<Rightarrow> bool \<Rightarrow> mstate \<Rightarrow> continuation \<Rightarrow> mstate option" where
  "RepeatMatcher bound m mn mx greedy (MState e p r) c =
     (if bound = 0 then None
      else if mx = Some 0 then c (MState e p r)
      else if mn \<noteq> 0 then
        m (MState e p r)
          (\<lambda>y. RepeatMatcher (bound - 1) m (mn - 1) (map_option (\<lambda>k. k - 1) mx) greedy y c)
      else if \<not> greedy then
        (case c (MState e p r) of
           Some z \<Rightarrow> Some z
         | None \<Rightarrow>
             m (MState e p r)
               (\<lambda>y. if endIndex_of y = e then None
                    else RepeatMatcher (bound - 1) m 0 (map_option (\<lambda>k. k - 1) mx) greedy y c))
      else
        (case m (MState e p r)
                (\<lambda>y. if endIndex_of y = e then None
                     else RepeatMatcher (bound - 1) m 0 (map_option (\<lambda>k. k - 1) mx) greedy y c) of
           Some z \<Rightarrow> Some z
         | None \<Rightarrow> c (MState e p r)))"

fun matcher :: "regex \<Rightarrow> matcher" where
  "matcher Empty (MState e p r) c = c (MState e p r)"
| "matcher (Chars cs) (MState e p r) c =
     (case r of
        [] \<Rightarrow> None
      | ch # r' \<Rightarrow> if cset_member ch cs then c (MState (e + 1) (Some ch) r') else None)"
| "matcher (Seq a b) (MState e p r) c = matcher a (MState e p r) (\<lambda>y. matcher b y c)"
| "matcher (Alt a b) (MState e p r) c =
     (case matcher a (MState e p r) c of
        Some z \<Rightarrow> Some z
      | None \<Rightarrow> matcher b (MState e p r) c)"
| "matcher (Repeat a mn mx greedy) (MState e p r) c =
     RepeatMatcher (Suc (mn + length r)) (matcher a) mn mx greedy (MState e p r) c"
| "matcher AssertStart (MState e p r) c = (if e = 0 then c (MState e p r) else None)"
| "matcher AssertEnd (MState e p r) c = (if r = [] then c (MState e p r) else None)"
| "matcher (WordBoundary invert) (MState e p r) c =
     (if (is_word_char p \<noteq> is_word_char (case r of [] \<Rightarrow> None | ch # r' \<Rightarrow> Some ch)) \<noteq> invert
      then c (MState e p r) else None)"
| "matcher (Lookahead invert a) (MState e p r) c =
     (case matcher a (MState e p r) Some of
        Some z \<Rightarrow> if invert then None else c (MState e p r)
      | None \<Rightarrow> if invert then c (MState e p r) else None)"

text \<open>
  RegExpBuiltinExec: the first index from \<open>lastIndex\<close> on, the end of the input
  included, where the expression matches. The result is that index, the input from it
  on, and the state the match ended in.
\<close>

fun regex_exec :: "regex \<Rightarrow> nat \<Rightarrow> nat option \<Rightarrow> jsstring \<Rightarrow> (nat \<times> jsstring \<times> mstate) option" where
  "regex_exec re i p [] =
     (case matcher re (MState i p []) Some of
        Some y \<Rightarrow> Some (i, [], y)
      | None \<Rightarrow> None)"
| "regex_exec re i p (ch # r) =
     (case matcher re (MState i p (ch # r)) Some of
        Some y \<Rightarrow> Some (i, ch # r, y)
      | None \<Rightarrow> regex_exec re (i + 1) (Some ch) r)"

text \<open>
  The iterator of \<open>matchAll\<close> for a global expression: each round matches from
  \<open>lastIndex\<close>, and an empty match moves \<open>lastIndex\<close> one further. A round ends past
  where it started, so the length of the input plus one bounds the rounds.
\<close>

fun matchAll_loop :: "nat \<Rightarrow> regex \<Rightarrow> mstate \<Rightarrow> (nat \<times> jsstring) list" where
  "matchAll_loop bound re (MState i p r) =
     (if bound = 0 then []
      else (case regex_exec re i p r of
              None \<Rightarrow> []
            | Some (start, from_start, MState e p' r') \<Rightarrow>
                (start, take (e - start) from_start) #
                (if e = start then
                   (case r' of
                      [] \<Rightarrow> []
                    | ch # r'' \<Rightarrow> matchAll_loop (bound - 1) re (MState (e + 1) (Some ch) r''))
                 else matchAll_loop (bound - 1) re (MState e p' r'))))"

definition regex_matchAll :: "regex \<Rightarrow> jsstring \<Rightarrow> (nat \<times> jsstring) list" where
  "regex_matchAll re s = matchAll_loop (Suc (length s)) re (MState 0 None s)"

subsection \<open>The parser of pattern sources\<close>

definition cu :: "char \<Rightarrow> nat" where
  "cu c = of_char c"

definition decimal_value :: "jsstring \<Rightarrow> nat" where
  "decimal_value ds = foldl (\<lambda>a d. 10 * a + (d - 48)) 0 ds"

text \<open>
  A quantifier at the head of the source: \<open>*\<close>, \<open>+\<close>, \<open>?\<close>, \<open>{n}\<close>, \<open>{n,}\<close> or \<open>{n,m}\<close>, then
  \<open>?\<close> for the lazy form. A brace that does not open one of these forms is no
  quantifier; \<open>{n,m}\<close> with \<open>m < n\<close> is an error.
\<close>

datatype quantifier = NoQuantifier | Quantifier nat "nat option" bool jsstring | QuantifierError

definition lazy_mark :: "nat \<Rightarrow> nat option \<Rightarrow> jsstring \<Rightarrow> quantifier" where
  "lazy_mark mn mx src =
     (case src of
        [] \<Rightarrow> Quantifier mn mx True []
      | c # rest \<Rightarrow> if c = cu CHR ''?'' then Quantifier mn mx False rest
                    else Quantifier mn mx True (c # rest))"

definition parseBraces :: "jsstring \<Rightarrow> quantifier" where
  "parseBraces src =
     (let ds = takeWhile isDigit src; after = dropWhile isDigit src in
      if ds = [] then NoQuantifier
      else (case after of
              [] \<Rightarrow> NoQuantifier
            | c # rest \<Rightarrow>
                if c = cu CHR ''}'' then lazy_mark (decimal_value ds) (Some (decimal_value ds)) rest
                else if c = cu CHR '','' then
                  (let es = takeWhile isDigit rest; after2 = dropWhile isDigit rest in
                   (case after2 of
                      [] \<Rightarrow> NoQuantifier
                    | c2 # rest2 \<Rightarrow>
                        if c2 \<noteq> cu CHR ''}'' then NoQuantifier
                        else if es = [] then lazy_mark (decimal_value ds) None rest2
                        else if decimal_value es < decimal_value ds then QuantifierError
                        else lazy_mark (decimal_value ds) (Some (decimal_value es)) rest2))
                else NoQuantifier))"

definition parseQuantifier :: "jsstring \<Rightarrow> quantifier" where
  "parseQuantifier src =
     (case src of
        [] \<Rightarrow> NoQuantifier
      | c # rest \<Rightarrow>
          if c = cu CHR ''*'' then lazy_mark 0 None rest
          else if c = cu CHR ''+'' then lazy_mark 1 None rest
          else if c = cu CHR ''?'' then lazy_mark 0 (Some 1) rest
          else if c = cu CHR ''{'' then parseBraces rest
          else NoQuantifier)"

text \<open>
  The code unit after a backslash: a character class escape, a control escape,
  \<open>\0\<close>, or the identity escape of a code unit that is not a letter, a digit or the
  underscore. The second component is the code unit when the escape stands for one.
  \<open>in_class\<close> tells whether the escape stands in a character class, where \<open>\b\<close> is the
  backspace.
\<close>

definition parseEscape :: "bool \<Rightarrow> nat \<Rightarrow> (cset \<times> nat option) option" where
  "parseEscape in_class e =
     (if e = cu CHR ''d'' then Some (cs_digit, None)
      else if e = cu CHR ''D'' then Some (CNot cs_digit, None)
      else if e = cu CHR ''w'' then Some (cs_word, None)
      else if e = cu CHR ''W'' then Some (CNot cs_word, None)
      else if e = cu CHR ''s'' then Some (cs_space, None)
      else if e = cu CHR ''S'' then Some (CNot cs_space, None)
      else if e = cu CHR ''t'' then Some (CRange 9 9, Some 9)
      else if e = cu CHR ''n'' then Some (CRange 10 10, Some 10)
      else if e = cu CHR ''v'' then Some (CRange 11 11, Some 11)
      else if e = cu CHR ''f'' then Some (CRange 12 12, Some 12)
      else if e = cu CHR ''r'' then Some (CRange 13 13, Some 13)
      else if e = cu CHR ''0'' then Some (CRange 0 0, Some 0)
      else if e = cu CHR ''b'' \<and> in_class then Some (CRange 8 8, Some 8)
      else if cset_member e cs_word then None
      else Some (CRange e e, Some e))"

text \<open>One atom of a character class, with the rest of the source.\<close>

definition classAtom :: "jsstring \<Rightarrow> ((cset \<times> nat option) \<times> jsstring) option" where
  "classAtom src =
     (case src of
        [] \<Rightarrow> None
      | c # rest \<Rightarrow>
          if c = cu (CHR 0x5C) then
            (case rest of
               [] \<Rightarrow> None
             | e # rest' \<Rightarrow>
                 if e = cu CHR ''0'' \<and> rest' \<noteq> [] \<and> isDigit (hd rest') then None
                 else (case parseEscape True e of None \<Rightarrow> None | Some a \<Rightarrow> Some (a, rest')))
          else Some ((CRange c c, Some c), rest))"

text \<open>
  One round of the ranges of a class: the closing bracket ends the class; otherwise an
  atom or a range is added to the sets read so far. \<open>a-b\<close> is a range when both ends
  are single code units in order; where an end is a class escape, the hyphen stands
  for itself.
\<close>

datatype class_step = ClassEnd cset jsstring | ClassMore jsstring "cset list" | ClassError

definition classRanges_step :: "jsstring \<Rightarrow> cset list \<Rightarrow> class_step" where
  "classRanges_step src acc =
     (case src of
        [] \<Rightarrow> ClassError
      | c # rest \<Rightarrow>
          if c = cu CHR '']'' then ClassEnd (CAny acc) rest
          else (case classAtom (c # rest) of
                  None \<Rightarrow> ClassError
                | Some ((setA, chA), rest1) \<Rightarrow>
                    if length rest1 \<ge> 2 \<and> hd rest1 = cu CHR ''-'' \<and> hd (tl rest1) \<noteq> cu CHR '']'' then
                      (case classAtom (tl rest1) of
                         None \<Rightarrow> ClassError
                       | Some ((setB, chB), rest3) \<Rightarrow>
                           (case chA of
                              None \<Rightarrow> ClassMore rest3 (acc @ [setA, CRange 45 45, setB])
                            | Some a \<Rightarrow>
                                (case chB of
                                   None \<Rightarrow> ClassMore rest3 (acc @ [setA, CRange 45 45, setB])
                                 | Some b \<Rightarrow>
                                     if a \<le> b then ClassMore rest3 (acc @ [CRange a b])
                                     else ClassError)))
                    else ClassMore rest1 (acc @ [setA])))"

text \<open>
  The ranges of a class up to the closing bracket. Every round consumes source, so the
  length of the source bounds the rounds.
\<close>

fun parseClassRanges :: "nat \<Rightarrow> jsstring \<Rightarrow> cset list \<Rightarrow> (cset \<times> jsstring) option" where
  "parseClassRanges bound src acc =
     (if bound = 0 then None
      else (case classRanges_step src acc of
              ClassEnd cs rest \<Rightarrow> Some (cs, rest)
            | ClassMore rest acc' \<Rightarrow> parseClassRanges (bound - 1) rest acc'
            | ClassError \<Rightarrow> None))"

definition parseClass :: "jsstring \<Rightarrow> (cset \<times> jsstring) option" where
  "parseClass src =
     (case src of
        [] \<Rightarrow> None
      | c # rest \<Rightarrow>
          if c = cu CHR ''^'' then
            (case parseClassRanges (Suc (length rest)) rest [] of
               None \<Rightarrow> None
             | Some (cs, rest') \<Rightarrow> Some (CNot cs, rest'))
          else parseClassRanges (Suc (length src)) src [])"

text \<open>An atom with the quantifier that follows it, if any.\<close>

definition quantified :: "regex \<Rightarrow> jsstring \<Rightarrow> (regex \<times> jsstring) option" where
  "quantified atom src =
     (case parseQuantifier src of
        NoQuantifier \<Rightarrow> Some (atom, src)
      | Quantifier mn mx greedy rest \<Rightarrow> Some (Repeat atom mn mx greedy, rest)
      | QuantifierError \<Rightarrow> None)"

text \<open>What a group opens with: \<open>(?:\<close>, \<open>(?=\<close>, \<open>(?!\<close>, a plain \<open>(\<close>, or a form not covered.\<close>

datatype group_kind = Plain | NonCapturing | PositiveLookahead | NegativeLookahead | Unsupported

definition group_open :: "jsstring \<Rightarrow> group_kind \<times> jsstring" where
  "group_open src =
     (case src of
        [] \<Rightarrow> (Plain, [])
      | q # rest \<Rightarrow>
          if q \<noteq> cu CHR ''?'' then (Plain, q # rest)
          else (case rest of
                  [] \<Rightarrow> (Unsupported, [])
                | k # rest' \<Rightarrow>
                    if k = cu CHR '':'' then (NonCapturing, rest')
                    else if k = cu CHR ''='' then (PositiveLookahead, rest')
                    else if k = cu CHR ''!'' then (NegativeLookahead, rest')
                    else (Unsupported, rest')))"

text \<open>
  A term that is not a group: an assertion, or an atom with the quantifier that follows
  it. \<open>c\<close> is the first code unit of the term. A quantifier with nothing to repeat is an
  error; a brace that opens no quantifier stands for itself.
\<close>

definition simpleTerm :: "nat \<Rightarrow> jsstring \<Rightarrow> (regex \<times> jsstring) option" where
  "simpleTerm c rest =
     (if c = cu CHR ''^'' then Some (AssertStart, rest)
      else if c = cu CHR ''$'' then Some (AssertEnd, rest)
      else if c = cu CHR ''.'' then quantified (Chars (CNot cs_line_terminator)) rest
      else if c = cu CHR ''*'' \<or> c = cu CHR ''+'' \<or> c = cu CHR ''?'' then None
      else if c = cu CHR ''{'' then
        (case parseBraces rest of
           NoQuantifier \<Rightarrow> quantified (Chars (CRange c c)) rest
         | Quantifier mn mx greedy rest' \<Rightarrow> None
         | QuantifierError \<Rightarrow> None)
      else if c = cu CHR ''['' then
        (case parseClass rest of
           None \<Rightarrow> None
         | Some (cs, rest') \<Rightarrow> quantified (Chars cs) rest')
      else if c = cu (CHR 0x5C) then
        (case rest of
           [] \<Rightarrow> None
         | e # rest' \<Rightarrow>
             if e = cu CHR ''b'' then Some (WordBoundary False, rest')
             else if e = cu CHR ''B'' then Some (WordBoundary True, rest')
             else if e = cu CHR ''0'' \<and> rest' \<noteq> [] \<and> isDigit (hd rest') then None
             else (case parseEscape False e of
                     None \<Rightarrow> None
                   | Some (cs, u) \<Rightarrow> quantified (Chars cs) rest'))
      else quantified (Chars (CRange c c)) rest)"

text \<open>
  Disjunction, Alternative and Term of the pattern grammar. Every call is given one
  less than its caller's bound; the calls nest no deeper than twice the length of the
  source, and the bound starts above that.
\<close>

fun parseDisjunction :: "nat \<Rightarrow> jsstring \<Rightarrow> (regex \<times> jsstring) option"
  and parseAlternative :: "nat \<Rightarrow> jsstring \<Rightarrow> (regex \<times> jsstring) option"
  and parseTerm :: "nat \<Rightarrow> nat \<Rightarrow> jsstring \<Rightarrow> (regex \<times> jsstring) option" where
  "parseDisjunction bound src =
     (if bound = 0 then None
      else (case parseAlternative (bound - 1) src of
              None \<Rightarrow> None
            | Some (a, rest) \<Rightarrow>
                (case rest of
                   [] \<Rightarrow> Some (a, [])
                 | c # rest' \<Rightarrow>
                     if c = cu CHR ''|'' then
                       (case parseDisjunction (bound - 1) rest' of
                          None \<Rightarrow> None
                        | Some (b, rest'') \<Rightarrow> Some (Alt a b, rest''))
                     else Some (a, c # rest'))))"
| "parseAlternative bound src =
     (if bound = 0 then None
      else (case src of
              [] \<Rightarrow> Some (Empty, [])
            | c # rest \<Rightarrow>
                if c = cu CHR ''|'' \<or> c = cu CHR '')'' then Some (Empty, c # rest)
                else (case parseTerm (bound - 1) c rest of
                        None \<Rightarrow> None
                      | Some (t, rest') \<Rightarrow>
                          (case parseAlternative (bound - 1) rest' of
                             None \<Rightarrow> None
                           | Some (a, rest'') \<Rightarrow> Some (Seq t a, rest'')))))"
| "parseTerm bound c rest =
     (if bound = 0 then None
      else if c \<noteq> cu CHR ''('' then simpleTerm c rest
      else (case group_open rest of
              (kind, inner) \<Rightarrow>
                if kind = Unsupported then None
                else
                (case parseDisjunction (bound - 1) inner of
                   None \<Rightarrow> None
                 | Some (d, after) \<Rightarrow>
                     (case after of
                        [] \<Rightarrow> None
                      | c' # rest' \<Rightarrow>
                          if c' \<noteq> cu CHR '')'' then None
                          else if kind = PositiveLookahead then Some (Lookahead False d, rest')
                          else if kind = NegativeLookahead then Some (Lookahead True d, rest')
                          else quantified d rest'))))"

text \<open>\<open>new RegExp(source, 'g')\<close>: the expression, or \<open>None\<close> for \<open>SyntaxError\<close>.\<close>

definition RegExp_compile :: "jsstring \<Rightarrow> regex option" where
  "RegExp_compile src =
     (case parseDisjunction (4 + 2 * length src) src of
        None \<Rightarrow> None
      | Some (re, rest) \<Rightarrow> if rest = [] then Some re else None)"

definition ecma_host :: "regex RegExpHost" where
  "ecma_host = \<lparr>RegExp_new = RegExp_compile, matchAll = regex_matchAll\<rparr>"

section \<open>The detector among the objects of the page\<close>

text \<open>
  The functions above take the detector's fields by value. In the running extension the
  detector, the settings it was given, the pattern array and every \<open>RegExp\<close> are objects
  that are held by reference, and a \<open>RegExp\<close> with the flag \<open>g\<close> carries the mutable
  \<open>lastIndex\<close>. This section has the same methods on a store of objects: every
  \<open>new\<close> allocates, every field is read from the store when the statement that reads it
  runs, and every method returns the store it leaves behind. The arrays and match
  objects that a call builds and returns are its own and stay values; so do the text
  nodes and elements, which the detector only reads; \<open>console.log\<close> writes to the console
  and is left out.
\<close>

subsection \<open>The store\<close>

type_synonym addr = nat

text \<open>The fields \<open>settings\<close> and \<open>patterns\<close> of a \<open>PIIDetector\<close>: two references.\<close>

record DetectorObject =
  settings_field :: addr
  patterns_field :: addr

text \<open>
  An \<open>ExtensionSettings\<close> object. Its \<open>patterns\<close> is a reference to an array, which the
  detector may come to share; the record of masking types is held with the object.
\<close>

record SettingsObject =
  obj_enabled :: bool
  obj_maskingTypes :: "jsstring \<rightharpoonup> MaskingType"
  obj_patterns :: addr
  obj_realTimeProcessing :: bool
  obj_sensitivity :: Sensitivity

text \<open>A \<open>RegExp\<close> object with the flag \<open>g\<close>: the compiled matcher and \<open>lastIndex\<close>.\<close>

record 'r RegExpObject =
  matcher_slot :: 'r
  lastIndex :: nat

text \<open>
  The store maps an address to the object of each kind that lives there; \<open>next_addr\<close> is
  the first address that no \<open>new\<close> has handed out. A pattern array is held with its
  descriptors: a change of a descriptor shows as a change of the arrays that list it.
\<close>

record 'r heap =
  detector_at :: "addr \<Rightarrow> DetectorObject"
  settings_at :: "addr \<Rightarrow> SettingsObject"
  array_at :: "addr \<Rightarrow> PIIPattern list"
  regexp_at :: "addr \<Rightarrow> 'r RegExpObject"
  next_addr :: addr

subsection \<open>The host's regular expressions as objects\<close>

text \<open>
  What the language leaves to the pattern: \<open>parse_pattern\<close> compiles a source, or gives
  \<open>None\<close> where the constructor throws \<open>SyntaxError\<close>; \<open>RegExpMatcher\<close> runs a compiled
  pattern on a string at one index and gives the number of code units matched there, or
  \<open>None\<close>. The steps around them are the language's own and are written out below.
\<close>

record 'r RegExpEngine =
  parse_pattern :: "jsstring \<Rightarrow> 'r option"
  RegExpMatcher :: "'r \<Rightarrow> jsstring \<Rightarrow> nat \<Rightarrow> nat option"

text \<open>\<open>new RegExp(source, 'g')\<close>: a new object whose \<open>lastIndex\<close> is 0.\<close>

definition new_RegExp :: "'r RegExpEngine \<Rightarrow> jsstring \<Rightarrow> 'r heap \<Rightarrow> (error + addr) \<times> 'r heap" where
  "new_RegExp E source H =
     (case parse_pattern E source of
        None \<Rightarrow> (Inl SyntaxError, H)
      | Some m \<Rightarrow>
          (Inr (next_addr H),
           H\<lparr>regexp_at := (regexp_at H)(next_addr H := \<lparr>matcher_slot = m, lastIndex = 0\<rparr>),
             next_addr := Suc (next_addr H)\<rparr>))"

text \<open>
  The search of RegExpBuiltinExec: from \<open>lastIndex\<close> on, the end of the string included,
  the first index where the matcher succeeds, with the index where the match ends.
\<close>

function find_match :: "'r RegExpEngine \<Rightarrow> 'r \<Rightarrow> jsstring \<Rightarrow> nat \<Rightarrow> (nat \<times> nat) option" where
  "find_match E m S i =
     (if i > length S then None
      else (case RegExpMatcher E m S i of
              None \<Rightarrow> find_match E m S (i + 1)
            | Some n \<Rightarrow> Some (i, i + n)))"
  by pat_completeness auto
termination
  by (relation "measure (\<lambda>(E, m, S, i). Suc (length S) - i)") auto

declare find_match.simps [simp del]

definition substring :: "jsstring \<Rightarrow> nat \<Rightarrow> nat \<Rightarrow> jsstring" where
  "substring S i e = take (e - i) (drop i S)"

text \<open>
  RegExpBuiltinExec on the object at \<open>R\<close>: the search starts at the object's \<open>lastIndex\<close>;
  a match sets \<open>lastIndex\<close> to its end, a failure sets it to 0.
\<close>

definition RegExpBuiltinExec ::
  "'r RegExpEngine \<Rightarrow> addr \<Rightarrow> jsstring \<Rightarrow> 'r heap \<Rightarrow> (nat \<times> jsstring) option \<times> 'r heap" where
  "RegExpBuiltinExec E R S H =
     (case find_match E (matcher_slot (regexp_at H R)) S (lastIndex (regexp_at H R)) of
        None \<Rightarrow> (None, H\<lparr>regexp_at := (regexp_at H)(R := (regexp_at H R)\<lparr>lastIndex := 0\<rparr>)\<rparr>)
      | Some (index, e) \<Rightarrow>
          (Some (index, substring S index e),
           H\<lparr>regexp_at := (regexp_at H)(R := (regexp_at H R)\<lparr>lastIndex := e\<rparr>)\<rparr>))"

text \<open>
  \<open>Array.from\<close> over the iterator of \<open>matchAll\<close>: each round runs RegExpBuiltinExec on the
  iterator's object, and after an empty match moves its \<open>lastIndex\<close> one further.
\<close>

function RegExpStringIterator_loop ::
  "'r RegExpEngine \<Rightarrow> addr \<Rightarrow> jsstring \<Rightarrow> (nat \<times> jsstring) list \<Rightarrow> 'r heap
     \<Rightarrow> (nat \<times> jsstring) list \<times> 'r heap" where
  "RegExpStringIterator_loop E R S acc H =
     (case RegExpBuiltinExec E R S H of
        (None, H1) \<Rightarrow> (acc, H1)
      | (Some (index, matchStr), H1) \<Rightarrow>
          (if matchStr = [] then
             RegExpStringIterator_loop E R S (acc @ [(index, matchStr)])
               (H1\<lparr>regexp_at := (regexp_at H1)
                      (R := (regexp_at H1 R)\<lparr>lastIndex := lastIndex (regexp_at H1 R) + 1\<rparr>)\<rparr>)
           else RegExpStringIterator_loop E R S (acc @ [(index, matchStr)]) H1))"
  by pat_completeness auto
termination
proof (relation "measure (\<lambda>(E, R, S, acc, H). Suc (length S) - lastIndex (regexp_at H R))")
  have found: "i \<le> index \<and> index \<le> length S \<and> index \<le> e"
    if "find_match E m S i = Some (index, e)" for E :: "'r RegExpEngine" and m S i index e
    using that
  proof (induction E m S i rule: find_match.induct)
    case (1 E m S i)
    show ?case
    proof (cases "RegExpMatcher E m S i")
      case None
      with "1.prems" have "i \<le> length S" and "find_match E m S (i + 1) = Some (index, e)"
        by (auto simp: find_match.simps [of E m S i] split: if_splits)
      with "1.IH" None show ?thesis by fastforce
    next
      case (Some n)
      with "1.prems" show ?thesis
        by (auto simp: find_match.simps [of E m S i] split: if_splits)
    qed
  qed
  have exec: "lastIndex (regexp_at H R) \<le> length S \<and>
      lastIndex (regexp_at H R) \<le> lastIndex (regexp_at H1 R) \<and>
      (matchStr \<noteq> [] \<longrightarrow> lastIndex (regexp_at H R) < lastIndex (regexp_at H1 R))"
    if ex: "RegExpBuiltinExec E R S H = (Some (index, matchStr), H1)"
    for E :: "'r RegExpEngine" and R S H index matchStr H1
  proof (cases "find_match E (matcher_slot (regexp_at H R)) S (lastIndex (regexp_at H R))")
    case None
    with ex show ?thesis by (simp add: RegExpBuiltinExec_def)
  next
    case (Some ie)
    obtain i e where ie: "ie = (i, e)" by (cases ie)
    from found [of E "matcher_slot (regexp_at H R)" S "lastIndex (regexp_at H R)" i e] Some ie
    have le: "lastIndex (regexp_at H R) \<le> i" "i \<le> length S" "i \<le> e" by simp_all
    from ex Some ie have str: "matchStr = substring S i e"
      and H1: "H1 = H\<lparr>regexp_at := (regexp_at H)(R := (regexp_at H R)\<lparr>lastIndex := e\<rparr>)\<rparr>"
      by (auto simp: RegExpBuiltinExec_def)
    from H1 have last: "lastIndex (regexp_at H1 R) = e" by simp
    have "matchStr \<noteq> [] \<Longrightarrow> i < e" using str by (auto simp: substring_def)
    with le last show ?thesis by auto
  qed
  show "wf (measure (\<lambda>(E :: 'r RegExpEngine, R, S, acc :: (nat \<times> jsstring) list, H).
              Suc (length S) - lastIndex (regexp_at H R)))"
    by simp
  show "((E, R, S, acc @ [(index, matchStr)],
          H1\<lparr>regexp_at := (regexp_at H1)
                (R := (regexp_at H1 R)\<lparr>lastIndex := lastIndex (regexp_at H1 R) + 1\<rparr>)\<rparr>),
         (E, R, S, acc, H))
        \<in> measure (\<lambda>(E, R, S, acc, H). Suc (length S) - lastIndex (regexp_at H R))"
    if "(x, H1) = RegExpBuiltinExec E R S H" "x = Some y" "(index, matchStr) = y" "matchStr = []"
    for E :: "'r RegExpEngine" and R S and acc :: "(nat \<times> jsstring) list" and H x H1 y index matchStr
  proof -
    from that have "RegExpBuiltinExec E R S H = (Some (index, matchStr), H1)" by simp
    from exec [OF this] have "lastIndex (regexp_at H R) \<le> length S"
      and "lastIndex (regexp_at H R) \<le> lastIndex (regexp_at H1 R)" by simp_all
    then show ?thesis by simp
  qed
  show "((E, R, S, acc @ [(index, matchStr)], H1), (E, R, S, acc, H))
        \<in> measure (\<lambda>(E, R, S, acc, H). Suc (length S) - lastIndex (regexp_at H R))"
    if "(x, H1) = RegExpBuiltinExec E R S H" "x = Some y" "(index, matchStr) = y" "matchStr \<noteq> []"
    for E :: "'r RegExpEngine" and R S and acc :: "(nat \<times> jsstring) list" and H x H1 y index matchStr
  proof -
    from that have "RegExpBuiltinExec E R S H = (Some (index, matchStr), H1)" by simp
    from exec [OF this] that(4) have "lastIndex (regexp_at H R) \<le> length S"
      and "lastIndex (regexp_at H R) < lastIndex (regexp_at H1 R)" by simp_all
    then show ?thesis by simp
  qed
qed

declare RegExpStringIterator_loop.simps [simp del]

text \<open>
  \<open>text.matchAll(regexp)\<close> and \<open>Array.from\<close> of it. The language builds the iterator on an
  object of its own: a second \<open>RegExp\<close> of the same source, whose \<open>lastIndex\<close> is set to
  the \<open>lastIndex\<close> read from \<open>regexp\<close>. The object \<open>regexp\<close> itself is not written.
\<close>

definition String_matchAll ::
  "'r RegExpEngine \<Rightarrow> jsstring \<Rightarrow> addr \<Rightarrow> 'r heap \<Rightarrow> (nat \<times> jsstring) list \<times> 'r heap" where
  "String_matchAll E S regexp H =
     (let matcher = next_addr H;
          H1 = H\<lparr>regexp_at := (regexp_at H)
                   (matcher := \<lparr>matcher_slot = matcher_slot (regexp_at H regexp), lastIndex = 0\<rparr>),
                 next_addr := Suc matcher\<rparr>;
          H2 = H1\<lparr>regexp_at := (regexp_at H1)
                    (matcher := (regexp_at H1 matcher)\<lparr>lastIndex := lastIndex (regexp_at H1 regexp)\<rparr>)\<rparr>
      in RegExpStringIterator_loop E matcher S [] H2)"

subsection \<open>The methods of the detector on the store\<close>

text \<open>\<open>PIIPatterns.getAllPatterns()\<close> builds a new array at every call.\<close>

definition getAllPatterns_heap :: "'r heap \<Rightarrow> addr \<times> 'r heap" where
  "getAllPatterns_heap H =
     (next_addr H,
      H\<lparr>array_at := (array_at H)(next_addr H := getAllPatterns), next_addr := Suc (next_addr H)\<rparr>)"

text \<open>
  \<open>initializePatterns\<close> returns the array of the settings object itself where that array
  is not empty: the detector then shares it with whoever holds the settings.
\<close>

definition initializePatterns_heap :: "addr \<Rightarrow> 'r heap \<Rightarrow> addr \<times> 'r heap" where
  "initializePatterns_heap this H =
     (let (defaultPatterns, H1) = getAllPatterns_heap H;
          settings = settings_at H1 (settings_field (detector_at H1 this))
      in if length (array_at H1 (obj_patterns settings)) > 0 then (obj_patterns settings, H1)
         else (defaultPatterns, H1))"

definition updateSettings_heap :: "addr \<Rightarrow> addr \<Rightarrow> 'r heap \<Rightarrow> 'r heap" where
  "updateSettings_heap this settings H =
     (let H1 = H\<lparr>detector_at := (detector_at H)
                   (this := (detector_at H this)\<lparr>settings_field := settings\<rparr>)\<rparr>;
          (ps, H2) = initializePatterns_heap this H1
      in H2\<lparr>detector_at := (detector_at H2)(this := (detector_at H2 this)\<lparr>patterns_field := ps\<rparr>)\<rparr>)"

text \<open>The constructor: a new detector object, and the two assignments of \<open>updateSettings\<close>.\<close>

definition new_PIIDetector_heap :: "addr \<Rightarrow> 'r heap \<Rightarrow> addr \<times> 'r heap" where
  "new_PIIDetector_heap settings H =
     (let this = next_addr H
      in (this, updateSettings_heap this settings (H\<lparr>next_addr := Suc this\<rparr>)))"

definition shouldIncludeMatch_heap ::
  "'r heap \<Rightarrow> addr \<Rightarrow> jsstring \<Rightarrow> PIIPattern \<Rightarrow> DetectionContext \<Rightarrow> bool" where
  "shouldIncludeMatch_heap H this mt p context =
     (let sens = obj_sensitivity (settings_at H (settings_field (detector_at H this))) in
      if \<not> isValidMatch mt (name p) then False
      else if sens = high then True
      else if sens = low then
        isLikelyPII mt (or_else (formContext context) (or_else (nearbyText context) []))
      else isMediumConfidenceMatch mt p context)"

definition getMaskingType_heap :: "'r heap \<Rightarrow> addr \<Rightarrow> jsstring \<Rightarrow> MaskingType" where
  "getMaskingType_heap H this ty =
     (case obj_maskingTypes (settings_at H (settings_field (detector_at H this))) ty of
        None \<Rightarrow> BLUR
      | Some m \<Rightarrow> m)"

text \<open>The inner \<open>forEach\<close> of \<open>detectInText\<close>; it reads the store and writes nothing.\<close>

definition pattern_matches_heap ::
  "'r heap \<Rightarrow> addr \<Rightarrow> PIIPattern \<Rightarrow> DetectionContext \<Rightarrow> (nat \<times> jsstring) list \<Rightarrow> PIIMatch list" where
  "pattern_matches_heap H this p context regexMatches =
     map (\<lambda>(index, mt).
            \<lparr>matchText = mt, startIndex = index, endIndex = index + length mt, type = name p,
             element = ctx_element context, match_maskingType = getMaskingType_heap H this (name p)\<rparr>)
         (filter (\<lambda>(index, mt). shouldIncludeMatch_heap H this mt p context) regexMatches)"

text \<open>
  The outer \<open>forEach\<close> of \<open>detectInText\<close> over the array at \<open>ps\<close>: the length is read once,
  the element at index \<open>k\<close> is read from the store when its round starts, and an index
  that the array no longer has is skipped.
\<close>

function detectInText_loop_heap ::
  "'r RegExpEngine \<Rightarrow> addr \<Rightarrow> DetectionContext \<Rightarrow> addr \<Rightarrow> nat \<Rightarrow> nat \<Rightarrow> PIIMatch list \<Rightarrow> 'r heap
     \<Rightarrow> (error + PIIMatch list) \<times> 'r heap" where
  "detectInText_loop_heap E this context ps len k matches H =
     (if k \<ge> len then (Inr matches, H)
      else if k \<ge> length (array_at H ps) then
        detectInText_loop_heap E this context ps len (k + 1) matches H
      else if \<not> enabled (array_at H ps ! k) then
        detectInText_loop_heap E this context ps len (k + 1) matches H
      else (case new_RegExp E (pattern (array_at H ps ! k)) H of
              (Inl e, H1) \<Rightarrow> (Inl e, H1)
            | (Inr globalPattern, H1) \<Rightarrow>
                (case String_matchAll E (ctx_textContent context) globalPattern H1 of
                   (regexMatches, H2) \<Rightarrow>
                     detectInText_loop_heap E this context ps len (k + 1)
                       (matches @ pattern_matches_heap H2 this (array_at H ps ! k) context regexMatches)
                       H2)))"
  by pat_completeness auto
termination
  by (relation "measure (\<lambda>(E, this, context, ps, len, k, matches, H). len - k)") auto

declare detectInText_loop_heap.simps [simp del]

definition detectInText_heap ::
  "'r RegExpEngine \<Rightarrow> addr \<Rightarrow> DetectionContext \<Rightarrow> 'r heap \<Rightarrow> (error + PIIMatch list) \<times> 'r heap" where
  "detectInText_heap E this context H =
     (let ps = patterns_field (detector_at H this)
      in detectInText_loop_heap E this context ps (length (array_at H ps)) 0 [] H)"

fun detectPII_loop_heap ::
  "'r RegExpEngine \<Rightarrow> addr \<Rightarrow> Text list \<Rightarrow> PIIMatch list \<Rightarrow> 'r heap
     \<Rightarrow> (error + PIIMatch list) \<times> 'r heap" where
  "detectPII_loop_heap E this [] matches H = (Inr matches, H)"
| "detectPII_loop_heap E this (textNode # rest) matches H =
     (case parentElement textNode of
        None \<Rightarrow> detectPII_loop_heap E this rest matches H
      | Some el \<Rightarrow>
          (let txt = or_else (textContent textNode) [] in
           if trim_is_empty txt then detectPII_loop_heap E this rest matches H
           else (case detectInText_heap E this (buildDetectionContext el txt) H of
                   (Inl e, H1) \<Rightarrow> (Inl e, H1)
                 | (Inr nodeMatches, H1) \<Rightarrow>
                     detectPII_loop_heap E this rest (matches @ nodeMatches) H1)))"

definition detectPII_heap ::
  "'r RegExpEngine \<Rightarrow> addr \<Rightarrow> Text list \<Rightarrow> 'r heap \<Rightarrow> (error + PIIMatch list) \<times> 'r heap" where
  "detectPII_heap E this textNodes H =
     (case detectPII_loop_heap E this textNodes [] H of
        (Inl e, H1) \<Rightarrow> (Inl e, H1)
      | (Inr matches, H1) \<Rightarrow> (Inr (postProcessMatches matches), H1))"

subsection \<open>Calls on a detector\<close>

text \<open>
  The two public methods as steps on the store: \<open>detectPII\<close> returns its result,
  \<open>updateSettings\<close> returns nothing; both return the store.
\<close>

datatype call = DetectPII "Text list" | UpdateSettings addr

fun call_method ::
  "'r RegExpEngine \<Rightarrow> addr \<Rightarrow> call \<Rightarrow> 'r heap \<Rightarrow> (error + PIIMatch list) option \<times> 'r heap" where
  "call_method E this (DetectPII textNodes) H =
     (case detectPII_heap E this textNodes H of (out, H1) \<Rightarrow> (Some out, H1))"
| "call_method E this (UpdateSettings settings) H = (None, updateSettings_heap this settings H)"

fun run_calls ::
  "'r RegExpEngine \<Rightarrow> addr \<Rightarrow> call list \<Rightarrow> 'r heap
     \<Rightarrow> (error + PIIMatch list) option list \<times> 'r heap" where
  "run_calls E this [] H = ([], H)"
| "run_calls E this (c # cs) H =
     (case call_method E this c H of
        (out, H1) \<Rightarrow> (case run_calls E this cs H1 of (outs, H2) \<Rightarrow> (out # outs, H2)))"

subsection \<open>What the detector holds\<close>

text \<open>
  The settings snapshot that a detector holds in a store: the values its two references
  lead to.
\<close>

definition settings_value :: "'r heap \<Rightarrow> addr \<Rightarrow> ExtensionSettings" where
  "settings_value H a =
     \<lparr>settings_enabled = obj_enabled (settings_at H a),
      maskingTypes = obj_maskingTypes (settings_at H a),
      patterns = array_at H (obj_patterns (settings_at H a)),
      realTimeProcessing = obj_realTimeProcessing (settings_at H a),
      sensitivity = obj_sensitivity (settings_at H a)\<rparr>"

definition held :: "'r heap \<Rightarrow> addr \<Rightarrow> PIIDetector" where
  "held H this =
     \<lparr>this_settings = settings_value H (settings_field (detector_at H this)),
      this_patterns = array_at H (patterns_field (detector_at H this))\<rparr>"

text \<open>
  The matches of \<open>text.matchAll(new RegExp(source, 'g'))\<close> as a function of the compiled
  pattern and the text: the rounds of the iterator from \<open>lastIndex\<close>.
\<close>

function matches_from :: "'r RegExpEngine \<Rightarrow> 'r \<Rightarrow> jsstring \<Rightarrow> nat \<Rightarrow> (nat \<times> jsstring) list" where
  "matches_from E m S i =
     (case find_match E m S i of
        None \<Rightarrow> []
      | Some (index, e) \<Rightarrow>
          (index, substring S index e) #
          matches_from E m S (if substring S index e = [] then e + 1 else e))"
  by pat_completeness auto
termination
proof (relation "measure (\<lambda>(E, m, S, i). Suc (length S) - i)")
  have found: "i \<le> index \<and> index \<le> length S \<and> index \<le> e"
    if "find_match E m S i = Some (index, e)" for E :: "'r RegExpEngine" and m S i index e
    using that
  proof (induction E m S i rule: find_match.induct)
    case (1 E m S i)
    show ?case
    proof (cases "RegExpMatcher E m S i")
      case None
      with "1.prems" have "i \<le> length S" and "find_match E m S (i + 1) = Some (index, e)"
        by (auto simp: find_match.simps [of E m S i] split: if_splits)
      with "1.IH" None show ?thesis by fastforce
    next
      case (Some n)
      with "1.prems" show ?thesis
        by (auto simp: find_match.simps [of E m S i] split: if_splits)
    qed
  qed
  show "wf (measure (\<lambda>(E :: 'r RegExpEngine, m :: 'r, S :: jsstring, i). Suc (length S) - i))"
    by simp
  fix E :: "'r RegExpEngine" and m :: 'r and S i x index e
  assume "find_match E m S i = Some x" "(index, e) = x"
  then have fm: "find_match E m S i = Some (index, e)" by simp
  from found [OF fm] have le: "i \<le> index" "index \<le> length S" "index \<le> e" by simp_all
  show "((E, m, S, if substring S index e = [] then e + 1 else e), (E, m, S, i))
        \<in> measure (\<lambda>(E, m, S, i). Suc (length S) - i)"
  proof (cases "substring S index e = []")
    case True
    with le show ?thesis by simp
  next
    case False
    then have "index < e" by (auto simp: substring_def)
    with False le show ?thesis by simp
  qed
qed

declare matches_from.simps [simp del]

definition host_of :: "'r RegExpEngine \<Rightarrow> 'r RegExpHost" where
  "host_of E = \<lparr>RegExp_new = parse_pattern E, matchAll = (\<lambda>m S. matches_from E m S 0)\<rparr>"

subsection \<open>The matcher as an engine\<close>

text \<open>
  The state in which the matcher starts at index \<open>i\<close> of \<open>S\<close>: the code unit before the
  index, and the input from the index on.
\<close>

definition unit_before :: "jsstring \<Rightarrow> nat \<Rightarrow> nat option" where
  "unit_before S i = (if i = 0 then None else Some (S ! (i - 1)))"

definition state_at :: "jsstring \<Rightarrow> nat \<Rightarrow> mstate" where
  "state_at S i = MState i (unit_before S i) (drop i S)"

definition regex_match_at :: "regex \<Rightarrow> jsstring \<Rightarrow> nat \<Rightarrow> nat option" where
  "regex_match_at re S i =
     (case matcher re (state_at S i) Some of
        None \<Rightarrow> None
      | Some y \<Rightarrow> Some (endIndex_of y - i))"

definition ecma_engine :: "regex RegExpEngine" where
  "ecma_engine = \<lparr>parse_pattern = RegExp_compile, RegExpMatcher = regex_match_at\<rparr>"

section \<open>The sort of V8 on short arrays\<close>

text \<open>
  Where the comparator is not consistent the language leaves the order of
  \<open>Array.prototype.sort\<close> to the implementation, and the insertion sort \<open>Array_sort\<close>
  need not give the order of the engine the extension runs on. V8 sorts an array of
  fewer than 64 elements in two steps: it takes the longest run at the start of the
  array, non-descending or strictly descending, reversing a descending one, and then
  inserts each later element into the sorted prefix at the place that a binary search
  finds. This section has these two steps, for the comparison of the two sorts on the
  inputs of the examples.
\<close>

text \<open>
  The number of elements after \<open>previousElement\<close> that continue the run.
\<close>

fun run_continues :: "('a \<Rightarrow> 'a \<Rightarrow> int) \<Rightarrow> bool \<Rightarrow> 'a \<Rightarrow> 'a list \<Rightarrow> nat" where
  "run_continues cmp isDescending previousElement [] = 0"
| "run_continues cmp isDescending previousElement (currentElement # rest) =
     (if (if isDescending then cmp currentElement previousElement \<ge> 0
          else cmp currentElement previousElement < 0) then 0
      else Suc (run_continues cmp isDescending currentElement rest))"

text \<open>CountAndMakeRun on an array of two or more elements: the array, and the length of the run.\<close>

fun CountAndMakeRun :: "('a \<Rightarrow> 'a \<Rightarrow> int) \<Rightarrow> 'a list \<Rightarrow> 'a list \<times> nat" where
  "CountAndMakeRun cmp (elementHigh # elementLow # rest) =
     (if cmp elementLow elementHigh < 0 then
        (rev (take (2 + run_continues cmp True elementLow rest) (elementHigh # elementLow # rest)) @
         drop (2 + run_continues cmp True elementLow rest) (elementHigh # elementLow # rest),
         2 + run_continues cmp True elementLow rest)
      else (elementHigh # elementLow # rest, 2 + run_continues cmp False elementLow rest))"
| "CountAndMakeRun cmp xs = (xs, length xs)"

text \<open>The binary search of BinaryInsertionSort for the place of \<open>pivot\<close> in \<open>xs\<close>.\<close>

function binary_search :: "('a \<Rightarrow> 'a \<Rightarrow> int) \<Rightarrow> 'a \<Rightarrow> 'a list \<Rightarrow> nat \<Rightarrow> nat \<Rightarrow> nat" where
  "binary_search cmp pivot xs left right =
     (if left < right then
        (if cmp pivot (xs ! (left + (right - left) div 2)) < 0
         then binary_search cmp pivot xs left (left + (right - left) div 2)
         else binary_search cmp pivot xs (left + (right - left) div 2 + 1) right)
      else left)"
  by pat_completeness auto
termination
  by (relation "measure (\<lambda>(cmp, pivot, xs, left, right). right - left)") auto

declare binary_search.simps [simp del]

text \<open>BinaryInsertionSort: the sorted prefix, and the elements still to insert.\<close>

fun BinaryInsertionSort :: "('a \<Rightarrow> 'a \<Rightarrow> int) \<Rightarrow> 'a list \<Rightarrow> 'a list \<Rightarrow> 'a list" where
  "BinaryInsertionSort cmp sorted_prefix [] = sorted_prefix"
| "BinaryInsertionSort cmp sorted_prefix (pivot # rest) =
     BinaryInsertionSort cmp
       (take (binary_search cmp pivot sorted_prefix 0 (length sorted_prefix)) sorted_prefix @
        pivot #
        drop (binary_search cmp pivot sorted_prefix 0 (length sorted_prefix)) sorted_prefix)
       rest"

definition Array_sort_V8 :: "('a \<Rightarrow> 'a \<Rightarrow> int) \<Rightarrow> 'a list \<Rightarrow> 'a list" where
  "Array_sort_V8 cmp xs =
     (if length xs < 2 then xs
      else BinaryInsertionSort cmp (take (snd (CountAndMakeRun cmp xs)) (fst (CountAndMakeRun cmp xs)))
             (drop (snd (CountAndMakeRun cmp xs)) (fst (CountAndMakeRun cmp xs))))"

section \<open>What the specification says of the coarse filter\<close>

text \<open>
  The code points of a string: a high surrogate followed by a low surrogate is one
  code point.
\<close>

fun codePoints :: "jsstring \<Rightarrow> nat list" where
  "codePoints (h # l # s) =
     (if 0xD800 \<le> h \<and> h \<le> 0xDBFF \<and> 0xDC00 \<le> l \<and> l \<le> 0xDFFF
      then (0x10000 + (h - 0xD800) * 0x400 + (l - 0xDC00)) # codePoints s
      else h # codePoints (l # s))"
| "codePoints s = s"

text \<open>
  The specification's rule for \<open>phone\<close>: digit-only length 10 to 11, not starting with
  four zeros.
\<close>

definition spec_phone_keep :: "jsstring \<Rightarrow> bool" where
  "spec_phone_keep m \<longleftrightarrow>
     10 \<le> length (strip_separators m) \<and> length (strip_separators m) \<le> 11 \<and>
     take 4 (strip_separators m) \<noteq> js ''0000''"

text \<open>
  The specification's rule for \<open>japaneseName\<close>: 2 to 8 code points, each an ideograph
  or a kana.
\<close>

definition spec_name_keep :: "jsstring \<Rightarrow> bool" where
  "spec_name_keep m \<longleftrightarrow>
     2 \<le> length (codePoints m) \<and> length (codePoints m) \<le> 8 \<and> list_all isNameChar (codePoints m)"

section \<open>What the specification says of the detector\<close>

text \<open>
  The Luhn checksum in the specification's words: going from the rightmost digit,
  every second digit is doubled, and 9 is subtracted from a doubled digit that exceeds
  9; the number is valid when the total is a multiple of 10. The digits are given
  rightmost first.
\<close>

fun luhn_sum_from_right :: "nat list \<Rightarrow> nat" where
  "luhn_sum_from_right [] = 0"
| "luhn_sum_from_right [d] = d"
| "luhn_sum_from_right (d # e # ds) =
     d + (if 2 * e > 9 then 2 * e - 9 else 2 * e) + luhn_sum_from_right ds"

definition spec_luhn_valid :: "jsstring \<Rightarrow> bool" where
  "spec_luhn_valid digits \<longleftrightarrow> luhn_sum_from_right (rev (map (\<lambda>c. c - 48) digits)) mod 10 = 0"

text \<open>
  The contextual corroboration of the specification's \<open>Low\<close> policy: a keyword in the
  form context or, if that is absent, in the nearby text. C6 states the \<open>Medium\<close>
  policy with it.
\<close>

definition spec_corroborated :: "jsstring \<Rightarrow> DetectionContext \<Rightarrow> bool" where
  "spec_corroborated mt context \<longleftrightarrow>
     isLikelyPII mt (or_else (formContext context) (or_else (nearbyText context) []))"

definition spec_medium_accept :: "jsstring \<Rightarrow> DetectionContext \<Rightarrow> bool" where
  "spec_medium_accept mt context \<longleftrightarrow>
     spec_corroborated mt context \<or> elementType context \<in> set highConfidenceElements"

text \<open>
  A text node that \<open>detectPII\<close> scans: it has a parent element and its text is not
  blank.
\<close>

definition scanned :: "Text \<Rightarrow> bool" where
  "scanned textNode \<longleftrightarrow>
     parentElement textNode \<noteq> None \<and> \<not> trim_is_empty (or_else (textContent textNode) [])"

text \<open>An enabled pattern whose source the host does not compile.\<close>

definition fails_to_compile :: "'r RegExpHost \<Rightarrow> PIIPattern \<Rightarrow> bool" where
  "fails_to_compile h p \<longleftrightarrow> enabled p \<and> RegExp_new h (pattern p) = None"

text \<open>No enabled pattern of the held list that compiles finds a match in the text of the node.\<close>

definition non_matching :: "'r RegExpHost \<Rightarrow> PIIDetector \<Rightarrow> Text \<Rightarrow> bool" where
  "non_matching h this textNode \<longleftrightarrow>
     (\<forall>p \<in> set (this_patterns this). enabled p \<longrightarrow>
        (case RegExp_new h (pattern p) of
           None \<Rightarrow> True
         | Some globalPattern \<Rightarrow>
             matchAll h globalPattern (or_else (textContent textNode) []) = []))"

text \<open>Two matches of one element whose intervals intersect.\<close>

definition overlap_in_span :: "PIIMatch \<Rightarrow> PIIMatch \<Rightarrow> bool" where
  "overlap_in_span a b \<longleftrightarrow>
     ref (element a) = ref (element b) \<and> startIndex a < endIndex b \<and> startIndex b < endIndex a"

section \<open>Where a matcher can get to\<close>

fun rest_of :: "mstate \<Rightarrow> jsstring" where
  "rest_of (MState e p r) = r"

text \<open>
  \<open>y\<close> lies ahead of \<open>x\<close>: the input left at \<open>y\<close> is a suffix of the input left at \<open>x\<close>, and
  the end index has moved by what was consumed.
\<close>

definition ahead :: "mstate \<Rightarrow> mstate \<Rightarrow> bool" where
  "ahead x y \<longleftrightarrow>
     (\<exists>consumed. rest_of x = consumed @ rest_of y \<and> endIndex_of y = endIndex_of x + length consumed)"

text \<open>A matcher that calls its continuation only on states ahead of the one it is given.\<close>

definition forward :: "matcher \<Rightarrow> bool" where
  "forward m \<longleftrightarrow> (\<forall>x c c'. (\<forall>y. ahead x y \<longrightarrow> c y = c' y) \<longrightarrow> m x c = m x c')"

text \<open>A matcher whose result is what its continuation returned on a state ahead.\<close>

definition lands :: "matcher \<Rightarrow> bool" where
  "lands m \<longleftrightarrow> (\<forall>x c z. m x c = Some z \<longrightarrow> (\<exists>y. ahead x y \<and> c y = Some z))"

section \<open>Concrete inputs\<close>

text \<open>
  Settings with no caller-supplied patterns, so that the detector holds the ten default
  patterns, with the masking types of the extension's default settings.
\<close>

definition default_settings :: "Sensitivity \<Rightarrow> ExtensionSettings" where
  "default_settings sens =
     \<lparr>settings_enabled = True,
      maskingTypes = map_of [(js ''email'', BLUR), (js ''phone'', MOSAIC), (js ''address'', BLACKOUT),
                             (js ''creditCard'', PIXELATE), (js ''name'', BLUR)],
      patterns = [], realTimeProcessing = True, sensitivity = sens\<rparr>"

text \<open>Settings that carry the caller's own patterns.\<close>

definition custom_settings :: "PIIPattern list \<Rightarrow> Sensitivity \<Rightarrow> ExtensionSettings" where
  "custom_settings ps sens =
     \<lparr>settings_enabled = True, maskingTypes = Map.empty, patterns = ps,
      realTimeProcessing = True, sensitivity = sens\<rparr>"

text \<open>An element outside any form and without a parent, and a text node below an element.\<close>

definition plain_element :: "nat \<Rightarrow> string \<Rightarrow> HTMLElement" where
  "plain_element r tag = \<lparr>ref = r, tagName = js tag, closest_form = None, parent_children = None\<rparr>"

definition text_node :: "HTMLElement \<Rightarrow> string \<Rightarrow> Text" where
  "text_node el s = \<lparr>parentElement = Some el, textContent = Some (js s)\<rparr>"

text \<open>
  A paragraph outside any form whose parent holds a label \<open>Email:\<close> before it: the
  second of two children.
\<close>

definition labelled_paragraph :: HTMLElement where
  "labelled_paragraph =
     \<lparr>ref = 1, tagName = js ''P'', closest_form = None,
      parent_children = Some [(0, Some (js ''Email:'')), (1, Some (js ''a@b.co''))]\<rparr>"

text \<open>A pattern whose source is an unterminated group.\<close>

definition malformed_pattern :: PIIPattern where
  "malformed_pattern = \<lparr>name = js ''custom'', pattern = js ''('', maskingType = BLUR, enabled = True\<rparr>"

text \<open>The email pattern under a type name that the priority list does not hold.\<close>

definition contact_pattern :: PIIPattern where
  "contact_pattern = EMAIL\<lparr>name := js ''contact''\<rparr>"

text \<open>
  A store that holds the default settings as an object at address 0, with the empty
  array at address 1 as its patterns, and nothing else.
\<close>

definition settings_store :: "Sensitivity \<Rightarrow> regex heap" where
  "settings_store sens =
     \<lparr>detector_at = (\<lambda>a. \<lparr>settings_field = 0, patterns_field = 0\<rparr>),
      settings_at = (\<lambda>a. \<lparr>obj_enabled = True, obj_maskingTypes = maskingTypes (default_settings sens),
                           obj_patterns = 1, obj_realTimeProcessing = True,
                           obj_sensitivity = sens\<rparr>),
      array_at = (\<lambda>a. []),
      regexp_at = (\<lambda>a. \<lparr>matcher_slot = Empty, lastIndex = 0\<rparr>),
      next_addr = 2\<rparr>"

text \<open>
  The store after \<open>new PIIDetector(settings)\<close>: the detector is the object at address 2
  and holds the array of the default patterns at address 3.
\<close>

definition detector_store :: "Sensitivity \<Rightarrow> regex heap" where
  "detector_store sens = snd (new_PIIDetector_heap 0 (settings_store sens))"

text \<open>
  The same store after other code has run: it holds a \<open>RegExp\<close> that some earlier
  search left with \<open>lastIndex\<close> 4.
\<close>

definition used_store :: "Sensitivity \<Rightarrow> regex heap" where
  "used_store sens =
     (detector_store sens)
       \<lparr>regexp_at := (regexp_at (detector_store sens))(4 := \<lparr>matcher_slot = Empty, lastIndex = 4\<rparr>),
        next_addr := 5\<rparr>"

text \<open>
  A store whose only object is a \<open>RegExp\<close> for \<open>\d+\<close> at address 0, left with the given
  \<open>lastIndex\<close>.
\<close>

definition digits_store :: "nat \<Rightarrow> regex heap" where
  "digits_store k =
     \<lparr>detector_at = (\<lambda>a. \<lparr>settings_field = 0, patterns_field = 0\<rparr>),
      settings_at = (\<lambda>a. \<lparr>obj_enabled = True, obj_maskingTypes = Map.empty, obj_patterns = 0,
                           obj_realTimeProcessing = True, obj_sensitivity = high\<rparr>),
      array_at = (\<lambda>a. []),
      regexp_at = (\<lambda>a. \<lparr>matcher_slot = Repeat (Chars cs_digit) 1 None True, lastIndex = k\<rparr>),
      next_addr = 1\<rparr>"

text \<open>
  What a method that only allocates \<open>RegExp\<close> objects leaves of a store: every detector,
  settings object and array, and every \<open>RegExp\<close> that was there before.
\<close>

definition extends :: "'r heap \<Rightarrow> 'r heap \<Rightarrow> bool" where
  "extends H H' \<longleftrightarrow>
     detector_at H' = detector_at H \<and> settings_at H' = settings_at H \<and>
     array_at H' = array_at H \<and> next_addr H \<le> next_addr H' \<and>
     (\<forall>a < next_addr H. regexp_at H' a = regexp_at H a)"

text \<open>A state of the matcher that is a position of the string \<open>S\<close>.\<close>

definition within :: "jsstring \<Rightarrow> mstate \<Rightarrow> bool" where
  "within S y \<longleftrightarrow> y = state_at S (endIndex_of y) \<and> endIndex_of y \<le> length S"

text \<open>A matcher that, started at a position of \<open>S\<close>, ends at a position of \<open>S\<close>.\<close>

definition keeps :: "jsstring \<Rightarrow> matcher \<Rightarrow> bool" where
  "keeps S m \<longleftrightarrow>
     (\<forall>x c z. within S x \<longrightarrow> m x c = Some z \<longrightarrow> (\<exists>y. within S y \<and> c y = Some z))"

text \<open>
  The stable sort by a key, as insertions from the left: each element goes behind the
  elements whose key is not greater.
\<close>

fun insert_after :: "('a \<Rightarrow> nat) \<Rightarrow> 'a \<Rightarrow> 'a list \<Rightarrow> 'a list" where
  "insert_after f x [] = [x]"
| "insert_after f x (y # ys) = (if f y \<le> f x then y # insert_after f x ys else x # y # ys)"

definition stable_sort :: "('a \<Rightarrow> nat) \<Rightarrow> 'a list \<Rightarrow> 'a list" where
  "stable_sort f xs = foldl (\<lambda>ys x. insert_after f x ys) [] xs"

text \<open>A comparator that compares the elements of a list by a key.\<close>

definition compares_by :: "('a \<Rightarrow> 'a \<Rightarrow> int) \<Rightarrow> ('a \<Rightarrow> nat) \<Rightarrow> 'a list \<Rightarrow> bool" where
  "compares_by cmp f xs \<longleftrightarrow> (\<forall>a \<in> set xs. \<forall>b \<in> set xs. cmp a b = int (f a) - int (f b))"

section \<open>Properties of the string functions\<close>

lemma js_simps:
  "js [] = []"
  "js (c # cs) = of_char c # js cs"
  by (simp_all add: js_def)

lemma startsWith_take: "startsWith s p \<longleftrightarrow> take (length p) s = p"
  by (induction s p rule: startsWith.induct) auto

section \<open>The coarse filter\<close>

text \<open>
  C8, as the code has it: with type \<open>phone\<close> the filter keeps, in order, the candidates
  whose form without hyphens and white space has at least 10 code units and does not
  start with three zeros. There is no upper bound on the length.
\<close>

theorem filterFalsePositives_phone:
  "filterFalsePositives matches (js ''phone'') =
     filter (\<lambda>m. 10 \<le> length (strip_separators m) \<and> take 3 (strip_separators m) \<noteq> js ''000'') matches"
  by (simp add: filterFalsePositives_def startsWith_take js_simps Let_def numeral_3_eq_3)

theorem filterFalsePositives_phone_witness:
  "filterFalsePositives [js ''090-1234-5678'', js ''12:30'', js ''000-1234-5678''] (js ''phone'') =
     [js ''090-1234-5678'']"
  using filterFalsePositives_phone
    [of "[js ''090-1234-5678'', js ''12:30'', js ''000-1234-5678'']"]
  by (simp add: js_simps strip_separators_def isWhiteSpace_def)

text \<open>
  Where C8 fails as stated: a candidate of twelve digits is kept although the stated
  rule rejects it, and a candidate that starts with three zeros but not four is
  dropped although the stated rule keeps it.
\<close>

theorem filterFalsePositives_phone_counterexample:
  "filterFalsePositives [js ''123456789012''] (js ''phone'') = [js ''123456789012''] \<and>
   \<not> spec_phone_keep (js ''123456789012'') \<and>
   filterFalsePositives [js ''00012345678''] (js ''phone'') = [] \<and>
   spec_phone_keep (js ''00012345678'')"
  by (simp add: filterFalsePositives_def spec_phone_keep_def js_simps strip_separators_def
      isWhiteSpace_def Let_def)

text \<open>
  C9, as the code has it: with type \<open>japaneseName\<close> the filter keeps, in order, the
  candidates of 2 to 8 UTF-16 code units, whatever their characters.
\<close>

theorem filterFalsePositives_japaneseName:
  "filterFalsePositives matches (js ''japaneseName'') =
     filter (\<lambda>m. length m \<in> {2..8}) matches"
  by (simp add: filterFalsePositives_def js_simps)

theorem filterFalsePositives_japaneseName_witness:
  "filterFalsePositives [[0x5C71, 0x7530], [0x5C71], js ''abcdefghi''] (js ''japaneseName'') =
     [[0x5C71, 0x7530]]"
  using filterFalsePositives_japaneseName [of "[[0x5C71, 0x7530], [0x5C71], js ''abcdefghi'']"]
  by (simp add: js_simps)

text \<open>
  Where C9 fails as stated: the Latin string \<open>ab\<close> is kept, and so is the single
  code point U+20BB7, which is two code units.
\<close>

theorem filterFalsePositives_japaneseName_counterexample:
  "filterFalsePositives [js ''ab''] (js ''japaneseName'') = [js ''ab''] \<and>
   \<not> spec_name_keep (js ''ab'') \<and>
   filterFalsePositives [[0xD842, 0xDFB7]] (js ''japaneseName'') = [[0xD842, 0xDFB7]] \<and>
   \<not> spec_name_keep [0xD842, 0xDFB7]"
  by (simp add: filterFalsePositives_def spec_name_keep_def js_simps isNameChar_def)

section \<open>Post-processing keeps only matches it was given\<close>

lemma find_first_Some:
  "find_first p xs = Some (i, x) \<Longrightarrow> i < length xs \<and> xs ! i = x \<and> p x"
proof (induction xs arbitrary: i)
  case Nil
  then show ?case by simp
next
  case (Cons y ys)
  show ?case
  proof (cases "p y")
    case True
    with Cons.prems show ?thesis by simp
  next
    case False
    with Cons.prems obtain j where j: "find_first p ys = Some (j, x)" "i = Suc j"
      by (auto split: option.splits)
    from Cons.IH [OF j(1)] j(2) show ?thesis by simp
  qed
qed

lemma set_removeDuplicate_step:
  "set (removeDuplicate_step result m) \<subseteq> insert m (set result)"
  unfolding removeDuplicate_step_def
  using set_update_subset_insert [of result _ m]
  by (auto split: option.splits)

lemma set_foldl_removeDuplicate_step:
  "set (foldl removeDuplicate_step result ms) \<subseteq> set result \<union> set ms"
proof (induction ms arbitrary: result)
  case Nil
  then show ?case by simp
next
  case (Cons m ms)
  have "set (foldl removeDuplicate_step (removeDuplicate_step result m) ms)
          \<subseteq> set (removeDuplicate_step result m) \<union> set ms"
    by (rule Cons.IH)
  also have "\<dots> \<subseteq> insert m (set result) \<union> set ms"
    using set_removeDuplicate_step [of result m] by blast
  finally show ?case by auto
qed

lemma set_removeDuplicateMatches: "set (removeDuplicateMatches ms) \<subseteq> set ms"
  unfolding removeDuplicateMatches_def
  using set_foldl_removeDuplicate_step [of "[]" ms] by simp

lemma set_insert_left: "set (insert_left cmp x ys) = insert x (set ys)"
  by (induction ys) auto

lemma set_sort_loop: "set (sort_loop cmp xs acc) = set xs \<union> set acc"
  by (induction xs arbitrary: acc) (auto simp: set_insert_left)

lemma set_Array_sort: "set (Array_sort cmp xs) = set xs"
  by (simp add: Array_sort_def set_sort_loop)

lemma set_postProcessMatches: "set (postProcessMatches ms) \<subseteq> set ms"
  by (simp add: postProcessMatches_def Let_def set_Array_sort set_removeDuplicateMatches)

section \<open>Every match passed its validator\<close>

lemma pattern_matches_valid:
  "m \<in> set (pattern_matches this p context rms) \<Longrightarrow> isValidMatch (matchText m) (type m)"
  by (auto simp: pattern_matches_def shouldIncludeMatch_def Let_def split: if_splits)

lemma detectInText_loop_valid:
  "detectInText_loop h this context ps acc = Inr ms \<Longrightarrow>
   \<forall>m \<in> set acc. isValidMatch (matchText m) (type m) \<Longrightarrow>
   \<forall>m \<in> set ms. isValidMatch (matchText m) (type m)"
proof (induction ps arbitrary: acc)
  case Nil
  then show ?case by simp
next
  case (Cons p ps)
  show ?case
  proof (cases "enabled p")
    case False
    with Cons.prems(1) have "detectInText_loop h this context ps acc = Inr ms" by simp
    from Cons.IH [OF this Cons.prems(2)] show ?thesis .
  next
    case True
    with Cons.prems(1) obtain r where r: "RegExp_new h (pattern p) = Some r"
      by (cases "RegExp_new h (pattern p)") auto
    let ?acc = "acc @ pattern_matches this p context (matchAll h r (ctx_textContent context))"
    from Cons.prems(1) True r have run: "detectInText_loop h this context ps ?acc = Inr ms"
      by simp
    have "\<forall>m \<in> set ?acc. isValidMatch (matchText m) (type m)"
      using Cons.prems(2) pattern_matches_valid by auto
    from Cons.IH [OF run this] show ?thesis .
  qed
qed

lemma detectInText_valid:
  "detectInText h this context = Inr ms \<Longrightarrow> \<forall>m \<in> set ms. isValidMatch (matchText m) (type m)"
  unfolding detectInText_def using detectInText_loop_valid [of h "this" "context" _ "[]" ms] by simp

lemma detectPII_loop_valid:
  "detectPII_loop h this textNodes acc = Inr ms \<Longrightarrow>
   \<forall>m \<in> set acc. isValidMatch (matchText m) (type m) \<Longrightarrow>
   \<forall>m \<in> set ms. isValidMatch (matchText m) (type m)"
proof (induction textNodes arbitrary: acc)
  case Nil
  then show ?case by simp
next
  case (Cons n ns)
  show ?case
  proof (cases "scanned n")
    case False
    with Cons.prems(1) have "detectPII_loop h this ns acc = Inr ms"
      by (auto simp: scanned_def Let_def split: option.splits if_splits)
    from Cons.IH [OF this Cons.prems(2)] show ?thesis .
  next
    case True
    then obtain el where el: "parentElement n = Some el"
      and nonblank: "\<not> trim_is_empty (or_else (textContent n) [])"
      by (auto simp: scanned_def)
    let ?ctx = "buildDetectionContext el (or_else (textContent n) [])"
    from Cons.prems(1) el nonblank obtain nms where nms: "detectInText h this ?ctx = Inr nms"
      and run: "detectPII_loop h this ns (acc @ nms) = Inr ms"
      by (cases "detectInText h this ?ctx") (auto simp: Let_def)
    have "\<forall>m \<in> set (acc @ nms). isValidMatch (matchText m) (type m)"
      using Cons.prems(2) detectInText_valid [OF nms] by auto
    from Cons.IH [OF run this] show ?thesis .
  qed
qed

lemma detectPII_valid:
  assumes "detectPII h this textNodes = Inr ms" and "m \<in> set ms"
  shows "isValidMatch (matchText m) (type m)"
proof -
  from assms(1) obtain raw where raw: "detectPII_loop h this textNodes [] = Inr raw"
    and ms: "ms = postProcessMatches raw"
    by (auto simp: detectPII_def split: sum.splits)
  from assms(2) ms set_postProcessMatches [of raw] have "m \<in> set raw" by auto
  with detectPII_loop_valid [OF raw] show ?thesis by simp
qed

section \<open>The Luhn loop\<close>

lemma luhn_loop_None: "luhn_loop cs isEven None = None"
  by (induction cs arbitrary: isEven) (simp_all add: Let_def)

lemma luhn_loop_digits:
  "luhn_loop cs isEven acc = Some t \<Longrightarrow> list_all isDigit cs"
proof (induction cs arbitrary: isEven acc)
  case Nil
  then show ?case by simp
next
  case (Cons c cs)
  show ?case
  proof (cases "isDigit c")
    case True
    with Cons show ?thesis by (auto simp: Let_def)
  next
    case False
    with Cons.prems show ?thesis
      by (simp add: Let_def parseInt1_def luhn_loop_None split: option.splits if_splits)
  qed
qed

lemma luhn_loop_sum:
  "list_all isDigit cs \<Longrightarrow>
   luhn_loop cs False (Some a) = Some (a + luhn_sum_from_right (map (\<lambda>c. c - 48) cs))"
proof (induction cs arbitrary: a rule: luhn_sum_from_right.induct)
  case 1
  then show ?case by simp
next
  case (2 c)
  then show ?case by (simp add: Let_def parseInt1_def)
next
  case (3 c1 c2 cs)
  from "3.prems" have dig: "isDigit c1" "isDigit c2" "list_all isDigit cs" by simp_all
  let ?d = "c1 - 48" and ?e = "c2 - 48"
  have step: "luhn_loop (c1 # c2 # cs) False (Some a) =
      luhn_loop cs False (Some (a + ?d + (if 2 * ?e > 9 then 2 * ?e - 9 else 2 * ?e)))"
    using dig by (simp add: Let_def parseInt1_def mult.commute)
  from "3.IH" [OF dig(3)] step show ?case
    by (simp add: add.assoc)
qed

lemma luhnCheck_spec:
  assumes "luhnCheck s"
  shows "list_all isDigit s \<and> spec_luhn_valid s"
proof -
  from assms obtain t where t: "luhn_loop (rev s) False (Some 0) = Some t" and m: "t mod 10 = 0"
    by (auto simp: luhnCheck_def split: option.splits)
  from luhn_loop_digits [OF t] have dig: "list_all isDigit s" by (simp add: list_all_iff)
  then have "list_all isDigit (rev s)" by (simp add: list_all_iff)
  from luhn_loop_sum [OF this, of 0] t
  have "t = luhn_sum_from_right (map (\<lambda>c. c - 48) (rev s))" by simp
  with m dig show ?thesis by (simp add: spec_luhn_valid_def rev_map)
qed

lemma strip_separators_digits:
  "list_all isDigit (strip_separators s) \<Longrightarrow> strip_separators s = filter isDigit s"
  by (induction s) (auto simp: strip_separators_def isDigit_def isWhiteSpace_def)

lemma isValidMatch_creditCard: "isValidMatch txt (js ''creditCard'') = isValidCreditCard txt"
  by (simp add: isValidMatch_def js_simps)

text \<open>
  C5: whatever the host, the settings and the text nodes, a match of type
  \<open>creditCard\<close> in the output of \<open>detectPII\<close> consists of digits, hyphens and white
  space only, and its digits pass the Luhn checksum as the specification words it. So
  no match whose digits are a 16-digit string that fails the checksum is returned, at
  any sensitivity.
\<close>

theorem creditCard_matches_pass_luhn:
  assumes "detectPII h this textNodes = Inr ms"
    and "m \<in> set ms"
    and "type m = js ''creditCard''"
  shows "strip_separators (matchText m) = filter isDigit (matchText m) \<and>
         spec_luhn_valid (filter isDigit (matchText m))"
proof -
  from detectPII_valid [OF assms(1,2)] assms(3)
  have "isValidCreditCard (matchText m)" by (simp add: isValidMatch_creditCard)
  then have "luhnCheck (strip_separators (matchText m))"
    by (simp add: isValidCreditCard_def Let_def split: if_splits)
  from luhnCheck_spec [OF this] strip_separators_digits [of "matchText m"]
  show ?thesis by simp
qed

section \<open>The confidence policy\<close>

text \<open>
  C6, as the code has it: at \<open>medium\<close> sensitivity a structurally valid candidate is
  accepted exactly when the form context is a non-empty string that holds a keyword,
  or the element type is one of \<open>input\<close>, \<open>textarea\<close>, \<open>span\<close>, \<open>div\<close>. The nearby text
  is not consulted.
\<close>

theorem medium_accepts_iff:
  assumes "sensitivity (this_settings this) = medium"
    and "isValidMatch mt (name p)"
  shows "shouldIncludeMatch this mt p context \<longleftrightarrow>
           (truthy (formContext context) \<and> isLikelyPII mt (or_else (formContext context) [])) \<or>
           elementType context \<in> set [js ''input'', js ''textarea'', js ''span'', js ''div'']"
  using assms
  by (simp add: shouldIncludeMatch_def isMediumConfidenceMatch_def highConfidenceElements_def
      Let_def del: set_simps)

section \<open>Errors\<close>

lemma detectInText_loop_Inl:
  "detectInText_loop h this context ps acc = Inl SyntaxError \<longleftrightarrow>
     (\<exists>p \<in> set ps. fails_to_compile h p)"
proof (induction ps arbitrary: acc)
  case Nil
  then show ?case by simp
next
  case (Cons p ps)
  then show ?case
    by (cases "RegExp_new h (pattern p)") (auto simp: fails_to_compile_def)
qed

lemma detectPII_loop_Inl:
  "detectPII_loop h this textNodes acc = Inl SyntaxError \<longleftrightarrow>
     (\<exists>n \<in> set textNodes. scanned n) \<and> (\<exists>p \<in> set (this_patterns this). fails_to_compile h p)"
proof (induction textNodes arbitrary: acc)
  case Nil
  then show ?case by simp
next
  case (Cons n ns)
  show ?case
  proof (cases "scanned n")
    case False
    then have "detectPII_loop h this (n # ns) acc = detectPII_loop h this ns acc"
      by (auto simp: scanned_def Let_def split: option.splits)
    with Cons.IH [of acc] False show ?thesis by simp
  next
    case True
    then obtain el where el: "parentElement n = Some el"
      and nonblank: "\<not> trim_is_empty (or_else (textContent n) [])"
      by (auto simp: scanned_def)
    let ?ctx = "buildDetectionContext el (or_else (textContent n) [])"
    show ?thesis
    proof (cases "detectInText h this ?ctx")
      case (Inl e)
      then have bad: "\<exists>p \<in> set (this_patterns this). fails_to_compile h p"
        using detectInText_loop_Inl [of h "this" ?ctx "this_patterns this" "[]"]
        by (cases e) (simp add: detectInText_def)
      from Inl el nonblank have "detectPII_loop h this (n # ns) acc = Inl SyntaxError"
        by (cases e) (simp add: Let_def)
      with bad True show ?thesis by auto
    next
      case (Inr nms)
      then have good: "\<not> (\<exists>p \<in> set (this_patterns this). fails_to_compile h p)"
        using detectInText_loop_Inl [of h "this" ?ctx "this_patterns this" "[]"]
        by (simp add: detectInText_def)
      from Inr el nonblank
      have "detectPII_loop h this (n # ns) acc = detectPII_loop h this ns (acc @ nms)"
        by (simp add: Let_def)
      with Cons.IH [of "acc @ nms"] good show ?thesis by simp
    qed
  qed
qed

lemma detectPII_loop_unscanned:
  "\<not> (\<exists>n \<in> set textNodes. scanned n) \<Longrightarrow> detectPII_loop h this textNodes acc = Inr acc"
  by (induction textNodes arbitrary: acc)
     (auto simp: scanned_def Let_def split: option.splits)

lemma detectInText_loop_no_match:
  assumes "\<forall>p \<in> set ps. enabled p \<longrightarrow>
             (\<exists>r. RegExp_new h (pattern p) = Some r \<and> matchAll h r (ctx_textContent context) = [])"
  shows "detectInText_loop h this context ps acc = Inr acc"
  using assms by (induction ps arbitrary: acc) (auto simp: pattern_matches_def)

lemma detectPII_loop_no_match:
  assumes "\<not> (\<exists>p \<in> set (this_patterns this). fails_to_compile h p)"
    and "\<forall>n \<in> set textNodes. scanned n \<longrightarrow> non_matching h this n"
  shows "detectPII_loop h this textNodes acc = Inr acc"
  using assms(2)
proof (induction textNodes arbitrary: acc)
  case Nil
  show ?case by simp
next
  case (Cons n ns)
  then have rest: "detectPII_loop h this ns acc = Inr acc" by simp
  show ?case
  proof (cases "scanned n")
    case False
    with rest show ?thesis
      by (auto simp: scanned_def Let_def split: option.splits)
  next
    case True
    then obtain el where el: "parentElement n = Some el"
      and nonblank: "\<not> trim_is_empty (or_else (textContent n) [])"
      by (auto simp: scanned_def)
    from True Cons.prems have "non_matching h this n" by simp
    with assms(1)
    have "\<forall>p \<in> set (this_patterns this). enabled p \<longrightarrow>
            (\<exists>r. RegExp_new h (pattern p) = Some r \<and>
                 matchAll h r (ctx_textContent (buildDetectionContext el (or_else (textContent n) []))) = [])"
      by (auto simp: non_matching_def fails_to_compile_def buildDetectionContext_def
               split: option.splits)
    then have "detectInText h this (buildDetectionContext el (or_else (textContent n) [])) = Inr []"
      unfolding detectInText_def by (rule detectInText_loop_no_match)
    with el nonblank rest show ?thesis by (simp add: Let_def)
  qed
qed

lemma postProcessMatches_Nil: "postProcessMatches [] = []"
  by (simp add: postProcessMatches_def removeDuplicateMatches_def Array_sort_def)

text \<open>
  C3, as the code has it. Nothing in the detector catches what \<open>new RegExp\<close> throws:
  \<open>detectPII\<close> raises \<open>SyntaxError\<close> exactly when some text node is scanned and some
  enabled pattern of the held list fails to compile, and returns a match list
  otherwise. When no text node is scanned (no input, or blank text only) the list is
  empty, and so it is when every enabled pattern compiles and none of them finds a match
  in a scanned text node.
\<close>

theorem detectPII_raises_iff:
  "(detectPII h this textNodes = Inl SyntaxError \<longleftrightarrow>
      (\<exists>n \<in> set textNodes. scanned n) \<and> (\<exists>p \<in> set (this_patterns this). fails_to_compile h p)) \<and>
   ((\<exists>ms. detectPII h this textNodes = Inr ms) \<longleftrightarrow>
      \<not> ((\<exists>n \<in> set textNodes. scanned n) \<and> (\<exists>p \<in> set (this_patterns this). fails_to_compile h p))) \<and>
   (\<not> (\<exists>n \<in> set textNodes. scanned n) \<longrightarrow> detectPII h this textNodes = Inr []) \<and>
   (\<not> (\<exists>p \<in> set (this_patterns this). fails_to_compile h p) \<and>
    (\<forall>n \<in> set textNodes. scanned n \<longrightarrow> non_matching h this n) \<longrightarrow>
      detectPII h this textNodes = Inr [])"
proof (intro conjI impI)
  show raises: "detectPII h this textNodes = Inl SyntaxError \<longleftrightarrow>
      (\<exists>n \<in> set textNodes. scanned n) \<and> (\<exists>p \<in> set (this_patterns this). fails_to_compile h p)"
    using detectPII_loop_Inl [of h "this" textNodes "[]"]
    by (auto simp: detectPII_def split: sum.splits)
  show "(\<exists>ms. detectPII h this textNodes = Inr ms) \<longleftrightarrow>
      \<not> ((\<exists>n \<in> set textNodes. scanned n) \<and> (\<exists>p \<in> set (this_patterns this). fails_to_compile h p))"
  proof (cases "detectPII h this textNodes")
    case (Inl e)
    then have "detectPII h this textNodes = Inl SyntaxError" by (cases e) simp
    with raises show ?thesis by simp
  next
    case (Inr ms)
    with raises show ?thesis by simp
  qed
  show "detectPII h this textNodes = Inr []" if "\<not> (\<exists>n \<in> set textNodes. scanned n)"
    using detectPII_loop_unscanned [OF that, of h "this" "[]"]
    by (simp add: detectPII_def postProcessMatches_Nil)
  show "detectPII h this textNodes = Inr []"
    if "\<not> (\<exists>p \<in> set (this_patterns this). fails_to_compile h p) \<and>
        (\<forall>n \<in> set textNodes. scanned n \<longrightarrow> non_matching h this n)"
    using detectPII_loop_no_match [of "this" h textNodes "[]"] that
    by (simp add: detectPII_def postProcessMatches_Nil)
qed

section \<open>One span is sorted\<close>

lemma compareMatches_same:
  "ref (element a) = ref (element b) \<Longrightarrow>
   compareMatches a b > 0 \<longleftrightarrow> startIndex b < startIndex a"
  by (simp add: compareMatches_def)

lemma insert_left_descending:
  assumes "\<forall>y \<in> set (x # ys). ref (element y) = r"
    and "sorted_wrt (\<lambda>a b. startIndex b \<le> startIndex a) ys"
  shows "sorted_wrt (\<lambda>a b. startIndex b \<le> startIndex a) (insert_left compareMatches x ys)"
  using assms
proof (induction ys)
  case Nil
  then show ?case by simp
next
  case (Cons y ys)
  from Cons.prems(1) have same: "ref (element y) = ref (element x)" by simp
  show ?case
  proof (cases "startIndex x < startIndex y")
    case True
    from Cons.prems have "sorted_wrt (\<lambda>a b. startIndex b \<le> startIndex a)
        (insert_left compareMatches x ys)"
      by (intro Cons.IH) auto
    moreover from Cons.prems(2) True
    have "\<forall>z \<in> set (insert_left compareMatches x ys). startIndex z \<le> startIndex y"
      by (auto simp: set_insert_left)
    ultimately show ?thesis
      using True same by (simp add: compareMatches_same)
  next
    case False
    with Cons.prems(2) have "\<forall>z \<in> set (y # ys). startIndex z \<le> startIndex x"
      by fastforce
    with Cons.prems(2) False same show ?thesis
      by (simp add: compareMatches_same)
  qed
qed

lemma sort_loop_ascending:
  assumes "\<forall>y \<in> set xs \<union> set prefix_rev. ref (element y) = r"
    and "sorted_wrt (\<lambda>a b. startIndex b \<le> startIndex a) prefix_rev"
  shows "sorted (map startIndex (sort_loop compareMatches xs prefix_rev))"
  using assms
proof (induction xs arbitrary: prefix_rev)
  case Nil
  then have "sorted_wrt (\<lambda>a b. startIndex a \<le> startIndex b) (rev prefix_rev)"
    by (simp add: sorted_wrt_rev)
  then show ?case by (simp add: sorted_map)
next
  case (Cons x xs)
  have "sorted_wrt (\<lambda>a b. startIndex b \<le> startIndex a) (insert_left compareMatches x prefix_rev)"
    using Cons.prems by (intro insert_left_descending [of _ _ r]) auto
  moreover have "\<forall>y \<in> set xs \<union> set (insert_left compareMatches x prefix_rev). ref (element y) = r"
    using Cons.prems(1) by (auto simp: set_insert_left)
  ultimately show ?case using Cons.IH by simp
qed

text \<open>
  When all the matches belong to one element, the comparator is consistent and the
  output of \<open>postProcessMatches\<close> is ascending by start index.
\<close>

theorem postProcessMatches_one_element_sorted:
  assumes "\<forall>m \<in> set ms. ref (element m) = r"
  shows "sorted (map startIndex (postProcessMatches ms))"
proof -
  from assms set_removeDuplicateMatches [of ms]
  have "\<forall>y \<in> set (removeDuplicateMatches ms) \<union> set []. ref (element y) = r" by auto
  from sort_loop_ascending [OF this] show ?thesis
    by (simp add: postProcessMatches_def Array_sort_def Let_def)
qed

lemma pattern_matches_element:
  "m \<in> set (pattern_matches this p context rms) \<Longrightarrow> element m = ctx_element context"
  by (auto simp: pattern_matches_def)

lemma detectInText_loop_element:
  "detectInText_loop h this context ps acc = Inr ms \<Longrightarrow>
   \<forall>m \<in> set acc. element m = ctx_element context \<Longrightarrow>
   \<forall>m \<in> set ms. element m = ctx_element context"
proof (induction ps arbitrary: acc)
  case Nil
  then show ?case by simp
next
  case (Cons p ps)
  show ?case
  proof (cases "enabled p")
    case False
    with Cons.prems(1) have "detectInText_loop h this context ps acc = Inr ms" by simp
    from Cons.IH [OF this Cons.prems(2)] show ?thesis .
  next
    case True
    with Cons.prems(1) obtain re where re: "RegExp_new h (pattern p) = Some re"
      by (cases "RegExp_new h (pattern p)") auto
    let ?acc = "acc @ pattern_matches this p context (matchAll h re (ctx_textContent context))"
    from Cons.prems(1) True re have run: "detectInText_loop h this context ps ?acc = Inr ms"
      by simp
    have "\<forall>m \<in> set ?acc. element m = ctx_element context"
      using Cons.prems(2) pattern_matches_element by auto
    from Cons.IH [OF run this] show ?thesis .
  qed
qed

text \<open>
  So for a single text node the matches that \<open>detectPII\<close> returns are ascending by start
  index, whatever the host and the settings.
\<close>

theorem detectPII_one_node_sorted:
  assumes "detectPII h this [textNode] = Inr ms"
  shows "sorted (map startIndex ms)"
proof (cases "scanned textNode")
  case False
  then have "detectPII_loop h this [textNode] [] = Inr []"
    by (intro detectPII_loop_unscanned) simp
  with assms have "ms = []" by (simp add: detectPII_def postProcessMatches_Nil)
  then show ?thesis by simp
next
  case True
  then obtain el where el: "parentElement textNode = Some el"
    and nonblank: "\<not> trim_is_empty (or_else (textContent textNode) [])"
    by (auto simp: scanned_def)
  let ?ctx = "buildDetectionContext el (or_else (textContent textNode) [])"
  from assms el nonblank obtain raw where raw: "detectInText h this ?ctx = Inr raw"
    and ms: "ms = postProcessMatches raw"
    by (cases "detectInText h this ?ctx") (auto simp: detectPII_def Let_def)
  from raw have "\<forall>m \<in> set raw. element m = ctx_element ?ctx"
    using detectInText_loop_element [of h "this" ?ctx "this_patterns this" "[]" raw]
    by (simp add: detectInText_def)
  then have "\<forall>m \<in> set raw. ref (element m) = ref el"
    by (simp add: buildDetectionContext_def)
  from postProcessMatches_one_element_sorted [OF this] ms show ?thesis by simp
qed

section \<open>The bounds of the matcher are never reached\<close>

declare RepeatMatcher.simps [simp del] matchAll_loop.simps [simp del]

lemma ahead_refl: "ahead x x"
  by (simp add: ahead_def)

lemma ahead_trans: "ahead x y \<Longrightarrow> ahead y z \<Longrightarrow> ahead x z"
  unfolding ahead_def
proof -
  assume "\<exists>c1. rest_of x = c1 @ rest_of y \<and> endIndex_of y = endIndex_of x + length c1"
    and "\<exists>c2. rest_of y = c2 @ rest_of z \<and> endIndex_of z = endIndex_of y + length c2"
  then obtain c1 c2 where "rest_of x = c1 @ rest_of y" "endIndex_of y = endIndex_of x + length c1"
    "rest_of y = c2 @ rest_of z" "endIndex_of z = endIndex_of y + length c2"
    by blast
  then have "rest_of x = (c1 @ c2) @ rest_of z \<and> endIndex_of z = endIndex_of x + length (c1 @ c2)"
    by simp
  then show "\<exists>c. rest_of x = c @ rest_of z \<and> endIndex_of z = endIndex_of x + length c"
    by blast
qed

lemma ahead_length: "ahead x y \<Longrightarrow> length (rest_of y) \<le> length (rest_of x)"
  by (auto simp: ahead_def)

lemma ahead_moved:
  "ahead x y \<Longrightarrow> endIndex_of y \<noteq> endIndex_of x \<Longrightarrow> length (rest_of y) < length (rest_of x)"
  by (auto simp: ahead_def)

lemma ahead_step: "ahead (MState e p (ch # r)) (MState (e + 1) (Some ch) r)"
  unfolding ahead_def by (intro exI [of _ "[ch]"]) simp

lemma forwardD: "forward m \<Longrightarrow> (\<And>y. ahead x y \<Longrightarrow> c y = c' y) \<Longrightarrow> m x c = m x c'"
  unfolding forward_def by blast

lemma RepeatMatcher_Suc:
  "RepeatMatcher (Suc b) m mn mx greedy (MState e p r) c =
     (if mx = Some 0 then c (MState e p r)
      else if mn \<noteq> 0 then
        m (MState e p r)
          (\<lambda>y. RepeatMatcher b m (mn - 1) (map_option (\<lambda>k. k - 1) mx) greedy y c)
      else if \<not> greedy then
        (case c (MState e p r) of
           Some z \<Rightarrow> Some z
         | None \<Rightarrow>
             m (MState e p r)
               (\<lambda>y. if endIndex_of y = e then None
                    else RepeatMatcher b m 0 (map_option (\<lambda>k. k - 1) mx) greedy y c))
      else
        (case m (MState e p r)
                (\<lambda>y. if endIndex_of y = e then None
                     else RepeatMatcher b m 0 (map_option (\<lambda>k. k - 1) mx) greedy y c) of
           Some z \<Rightarrow> Some z
         | None \<Rightarrow> c (MState e p r)))"
  by (subst RepeatMatcher.simps, unfold diff_Suc_1, simp)

lemma RepeatMatcher_forward:
  assumes "forward m"
  shows "forward (RepeatMatcher b m mn mx greedy)"
proof -
  have "RepeatMatcher b m mn mx greedy x c = RepeatMatcher b m mn mx greedy x c'"
    if "\<And>y. ahead x y \<Longrightarrow> c y = c' y" for x c c'
    using that
  proof (induction b arbitrary: x mn mx)
    case 0
    then show ?case by (cases x) (simp add: RepeatMatcher.simps)
  next
    case (Suc b)
    obtain e p r where x: "x = MState e p r" by (cases x)
    have here: "c x = c' x" using Suc.prems ahead_refl by blast
    have later: "RepeatMatcher b m mn' mx' greedy y c = RepeatMatcher b m mn' mx' greedy y c'"
      if "ahead x y" for y mn' mx'
      using Suc.IH [of y] Suc.prems that ahead_trans by blast
    have run1: "m x (\<lambda>y. RepeatMatcher b m (mn - 1) (map_option (\<lambda>k. k - 1) mx) greedy y c) =
                m x (\<lambda>y. RepeatMatcher b m (mn - 1) (map_option (\<lambda>k. k - 1) mx) greedy y c')"
      by (rule forwardD [OF assms]) (rule later)
    have run0: "m x (\<lambda>y. if endIndex_of y = e then None
                         else RepeatMatcher b m 0 (map_option (\<lambda>k. k - 1) mx) greedy y c) =
                m x (\<lambda>y. if endIndex_of y = e then None
                         else RepeatMatcher b m 0 (map_option (\<lambda>k. k - 1) mx) greedy y c')"
      by (rule forwardD [OF assms]) (simp add: later)
    show ?case
      using here run1 run0 unfolding x RepeatMatcher_Suc
      by (auto split: option.splits)
  qed
  then show ?thesis unfolding forward_def by blast
qed

lemma matcher_forward: "forward (matcher re)"
proof (induction re)
  case Empty
  show ?case unfolding forward_def
  proof (intro allI impI)
    fix x :: mstate and c c' :: continuation
    assume "\<forall>y. ahead x y \<longrightarrow> c y = c' y"
    then have "c x = c' x" using ahead_refl by blast
    then show "matcher Empty x c = matcher Empty x c'" by (cases x) simp
  qed
next
  case (Chars cs)
  show ?case unfolding forward_def
  proof (intro allI impI)
    fix x :: mstate and c c' :: continuation
    assume h: "\<forall>y. ahead x y \<longrightarrow> c y = c' y"
    obtain e p r where x: "x = MState e p r" by (cases x)
    show "matcher (Chars cs) x c = matcher (Chars cs) x c'"
    proof (cases r)
      case Nil
      then show ?thesis by (simp add: x)
    next
      case (Cons ch r')
      with h x have "c (MState (e + 1) (Some ch) r') = c' (MState (e + 1) (Some ch) r')"
        using ahead_step by blast
      with Cons show ?thesis by (simp add: x)
    qed
  qed
next
  case (Seq a b)
  show ?case unfolding forward_def
  proof (intro allI impI)
    fix x :: mstate and c c' :: continuation
    assume h: "\<forall>y. ahead x y \<longrightarrow> c y = c' y"
    have "matcher a x (\<lambda>y. matcher b y c) = matcher a x (\<lambda>y. matcher b y c')"
    proof (rule forwardD [OF Seq.IH(1)])
      fix y assume "ahead x y"
      with h have "\<And>z. ahead y z \<Longrightarrow> c z = c' z" using ahead_trans by blast
      then show "matcher b y c = matcher b y c'" by (rule forwardD [OF Seq.IH(2)])
    qed
    then show "matcher (Seq a b) x c = matcher (Seq a b) x c'" by (cases x) simp
  qed
next
  case (Alt a b)
  show ?case unfolding forward_def
  proof (intro allI impI)
    fix x :: mstate and c c' :: continuation
    assume h: "\<forall>y. ahead x y \<longrightarrow> c y = c' y"
    then have "matcher a x c = matcher a x c'" "matcher b x c = matcher b x c'"
      using forwardD [OF Alt.IH(1)] forwardD [OF Alt.IH(2)] by blast+
    then show "matcher (Alt a b) x c = matcher (Alt a b) x c'"
      by (cases x) (simp cong: option.case_cong)
  qed
next
  case (Repeat a mn mx greedy)
  show ?case unfolding forward_def
  proof (intro allI impI)
    fix x :: mstate and c c' :: continuation
    assume h: "\<forall>y. ahead x y \<longrightarrow> c y = c' y"
    obtain e p r where x: "x = MState e p r" by (cases x)
    from h have "RepeatMatcher (Suc (mn + length r)) (matcher a) mn mx greedy x c =
                 RepeatMatcher (Suc (mn + length r)) (matcher a) mn mx greedy x c'"
      using forwardD [OF RepeatMatcher_forward [OF Repeat.IH]] by blast
    then show "matcher (Repeat a mn mx greedy) x c = matcher (Repeat a mn mx greedy) x c'"
      unfolding x by simp
  qed
next
  case AssertStart
  show ?case unfolding forward_def
  proof (intro allI impI)
    fix x :: mstate and c c' :: continuation
    assume "\<forall>y. ahead x y \<longrightarrow> c y = c' y"
    then have "c x = c' x" using ahead_refl by blast
    then show "matcher AssertStart x c = matcher AssertStart x c'" by (cases x) auto
  qed
next
  case AssertEnd
  show ?case unfolding forward_def
  proof (intro allI impI)
    fix x :: mstate and c c' :: continuation
    assume "\<forall>y. ahead x y \<longrightarrow> c y = c' y"
    then have "c x = c' x" using ahead_refl by blast
    then show "matcher AssertEnd x c = matcher AssertEnd x c'" by (cases x) auto
  qed
next
  case (WordBoundary invert)
  show ?case unfolding forward_def
  proof (intro allI impI)
    fix x :: mstate and c c' :: continuation
    assume "\<forall>y. ahead x y \<longrightarrow> c y = c' y"
    then have "c x = c' x" using ahead_refl by blast
    then show "matcher (WordBoundary invert) x c = matcher (WordBoundary invert) x c'"
      by (cases x) auto
  qed
next
  case (Lookahead invert a)
  show ?case unfolding forward_def
  proof (intro allI impI)
    fix x :: mstate and c c' :: continuation
    assume "\<forall>y. ahead x y \<longrightarrow> c y = c' y"
    then have "c x = c' x" using ahead_refl by blast
    then show "matcher (Lookahead invert a) x c = matcher (Lookahead invert a) x c'"
      by (cases x) (auto split: option.splits)
  qed
qed

text \<open>
  Above the minimum plus the length of the remaining input, the bound of
  \<open>RepeatMatcher\<close> makes no difference: the branch for an exhausted bound is never
  taken by \<open>matcher\<close>.
\<close>

lemma RepeatMatcher_bound_Suc:
  assumes "forward m"
  shows "mn + length (rest_of x) < b \<Longrightarrow>
         RepeatMatcher b m mn mx greedy x c = RepeatMatcher (Suc b) m mn mx greedy x c"
proof (induction b arbitrary: x mn mx)
  case 0
  then show ?case by simp
next
  case (Suc b)
  obtain e p r where x: "x = MState e p r" by (cases x)
  from Suc.prems x have bound: "mn + length r < Suc b" by simp
  have run1: "m x (\<lambda>y. RepeatMatcher b m (mn - 1) (map_option (\<lambda>k. k - 1) mx) greedy y c) =
              m x (\<lambda>y. RepeatMatcher (Suc b) m (mn - 1) (map_option (\<lambda>k. k - 1) mx) greedy y c)"
    if "mn \<noteq> 0"
  proof (rule forwardD [OF assms])
    fix y assume "ahead x y"
    then have "length (rest_of y) \<le> length r" using ahead_length x by fastforce
    with bound that have "(mn - 1) + length (rest_of y) < b" by simp
    then show "RepeatMatcher b m (mn - 1) (map_option (\<lambda>k. k - 1) mx) greedy y c =
               RepeatMatcher (Suc b) m (mn - 1) (map_option (\<lambda>k. k - 1) mx) greedy y c"
      by (rule Suc.IH)
  qed
  have run0: "m x (\<lambda>y. if endIndex_of y = e then None
                       else RepeatMatcher b m 0 (map_option (\<lambda>k. k - 1) mx) greedy y c) =
              m x (\<lambda>y. if endIndex_of y = e then None
                       else RepeatMatcher (Suc b) m 0 (map_option (\<lambda>k. k - 1) mx) greedy y c)"
    if "mn = 0"
  proof (rule forwardD [OF assms])
    fix y assume y: "ahead x y"
    show "(if endIndex_of y = e then None
           else RepeatMatcher b m 0 (map_option (\<lambda>k. k - 1) mx) greedy y c) =
          (if endIndex_of y = e then None
           else RepeatMatcher (Suc b) m 0 (map_option (\<lambda>k. k - 1) mx) greedy y c)"
    proof (cases "endIndex_of y = e")
      case True
      then show ?thesis by simp
    next
      case False
      with y x have "length (rest_of y) < length r" using ahead_moved [of x y] by simp
      with bound that have "0 + length (rest_of y) < b" by simp
      from Suc.IH [OF this] False show ?thesis by simp
    qed
  qed
  show ?case
    using run1 run0 unfolding x RepeatMatcher_Suc
    by (auto split: option.splits)
qed

lemma RepeatMatcher_bound_irrelevant:
  assumes "forward m" and "mn + length (rest_of x) < b" and "b \<le> b'"
  shows "RepeatMatcher b' m mn mx greedy x c = RepeatMatcher b m mn mx greedy x c"
  using assms(3,2)
proof (induction b' rule: dec_induct)
  case base
  show ?case by simp
next
  case (step n)
  from step.hyps step.prems have "mn + length (rest_of x) < n" by simp
  from RepeatMatcher_bound_Suc [OF assms(1) this] step.IH [OF step.prems]
  show ?case by simp
qed

text \<open>So a repetition can be run with any bound above the minimum plus the input left.\<close>

lemma matcher_Repeat_any_bound:
  assumes "mn + length r < b"
  shows "matcher (Repeat a mn mx greedy) (MState e p r) c =
         RepeatMatcher b (matcher a) mn mx greedy (MState e p r) c"
proof -
  have "RepeatMatcher b (matcher a) mn mx greedy (MState e p r) c =
        RepeatMatcher (Suc (mn + length r)) (matcher a) mn mx greedy (MState e p r) c"
    using assms by (intro RepeatMatcher_bound_irrelevant [OF matcher_forward]) simp_all
  then show ?thesis by simp
qed

section \<open>A match ends ahead of where it started\<close>

lemma landsD: "lands m \<Longrightarrow> m x c = Some z \<Longrightarrow> \<exists>y. ahead x y \<and> c y = Some z"
  unfolding lands_def by blast

lemma RepeatMatcher_lands:
  assumes "lands m"
  shows "lands (RepeatMatcher b m mn mx greedy)"
proof -
  have "\<exists>y. ahead x y \<and> c y = Some z"
    if "RepeatMatcher b m mn mx greedy x c = Some z" for x c z
    using that
  proof (induction b arbitrary: x mn mx)
    case 0
    then show ?case by (cases x) (simp add: RepeatMatcher.simps)
  next
    case (Suc b)
    obtain e p r where x: "x = MState e p r" by (cases x)
    let ?mx = "map_option (\<lambda>k. k - 1) mx"
    from Suc.prems consider
        (here) "c x = Some z"
      | (more) "m x (\<lambda>y. RepeatMatcher b m (mn - 1) ?mx greedy y c) = Some z"
      | (more0) "m x (\<lambda>y. if endIndex_of y = e then None
                           else RepeatMatcher b m 0 ?mx greedy y c) = Some z"
      unfolding x RepeatMatcher_Suc by (auto split: if_splits option.splits)
    then show ?case
    proof cases
      case here
      then show ?thesis using ahead_refl by blast
    next
      case more
      from landsD [OF assms more] obtain y where y: "ahead x y"
        and "RepeatMatcher b m (mn - 1) ?mx greedy y c = Some z" by blast
      from Suc.IH [OF this(2)] y show ?thesis using ahead_trans by blast
    next
      case more0
      from landsD [OF assms more0] obtain y where y: "ahead x y"
        and "RepeatMatcher b m 0 ?mx greedy y c = Some z"
        by (auto split: if_splits)
      from Suc.IH [OF this(2)] y show ?thesis using ahead_trans by blast
    qed
  qed
  then show ?thesis unfolding lands_def by blast
qed

lemma matcher_lands: "lands (matcher re)"
proof (induction re)
  case Empty
  show ?case unfolding lands_def
  proof (intro allI impI)
    fix x :: mstate and c :: continuation and z
    assume "matcher Empty x c = Some z"
    then have "c x = Some z" by (cases x) simp
    then show "\<exists>y. ahead x y \<and> c y = Some z" using ahead_refl by blast
  qed
next
  case (Chars cs)
  show ?case unfolding lands_def
  proof (intro allI impI)
    fix x :: mstate and c :: continuation and z
    assume run: "matcher (Chars cs) x c = Some z"
    obtain e p r where x: "x = MState e p r" by (cases x)
    from run x obtain ch r' where "r = ch # r'" "c (MState (e + 1) (Some ch) r') = Some z"
      by (cases r) (auto split: if_splits)
    then show "\<exists>y. ahead x y \<and> c y = Some z" using ahead_step x by blast
  qed
next
  case (Seq a b)
  show ?case unfolding lands_def
  proof (intro allI impI)
    fix x :: mstate and c :: continuation and z
    assume "matcher (Seq a b) x c = Some z"
    then have "matcher a x (\<lambda>y. matcher b y c) = Some z" by (cases x) simp
    from landsD [OF Seq.IH(1) this] obtain y where y: "ahead x y" "matcher b y c = Some z"
      by blast
    from landsD [OF Seq.IH(2) y(2)] y(1) show "\<exists>y. ahead x y \<and> c y = Some z"
      using ahead_trans by blast
  qed
next
  case (Alt a b)
  show ?case unfolding lands_def
  proof (intro allI impI)
    fix x :: mstate and c :: continuation and z
    assume "matcher (Alt a b) x c = Some z"
    then have "matcher a x c = Some z \<or> matcher b x c = Some z"
      by (cases x) (auto split: option.splits)
    then show "\<exists>y. ahead x y \<and> c y = Some z"
      using landsD [OF Alt.IH(1)] landsD [OF Alt.IH(2)] by blast
  qed
next
  case (Repeat a mn mx greedy)
  show ?case unfolding lands_def
  proof (intro allI impI)
    fix x :: mstate and c :: continuation and z
    assume run: "matcher (Repeat a mn mx greedy) x c = Some z"
    obtain e p r where x: "x = MState e p r" by (cases x)
    from run have "RepeatMatcher (Suc (mn + length r)) (matcher a) mn mx greedy x c = Some z"
      unfolding x by simp
    from landsD [OF RepeatMatcher_lands [OF Repeat.IH] this]
    show "\<exists>y. ahead x y \<and> c y = Some z" .
  qed
next
  case AssertStart
  show ?case unfolding lands_def
  proof (intro allI impI)
    fix x :: mstate and c :: continuation and z
    assume "matcher AssertStart x c = Some z"
    then have "c x = Some z" by (cases x) (auto split: if_splits)
    then show "\<exists>y. ahead x y \<and> c y = Some z" using ahead_refl by blast
  qed
next
  case AssertEnd
  show ?case unfolding lands_def
  proof (intro allI impI)
    fix x :: mstate and c :: continuation and z
    assume "matcher AssertEnd x c = Some z"
    then have "c x = Some z" by (cases x) (auto split: if_splits)
    then show "\<exists>y. ahead x y \<and> c y = Some z" using ahead_refl by blast
  qed
next
  case (WordBoundary invert)
  show ?case unfolding lands_def
  proof (intro allI impI)
    fix x :: mstate and c :: continuation and z
    assume "matcher (WordBoundary invert) x c = Some z"
    then have "c x = Some z" by (cases x) (auto split: if_splits)
    then show "\<exists>y. ahead x y \<and> c y = Some z" using ahead_refl by blast
  qed
next
  case (Lookahead invert a)
  show ?case unfolding lands_def
  proof (intro allI impI)
    fix x :: mstate and c :: continuation and z
    assume "matcher (Lookahead invert a) x c = Some z"
    then have "c x = Some z" by (cases x) (auto split: if_splits option.splits)
    then show "\<exists>y. ahead x y \<and> c y = Some z" using ahead_refl by blast
  qed
qed

lemma matcher_Some_ahead: "matcher re x Some = Some y \<Longrightarrow> ahead x y"
  using landsD [OF matcher_lands, of re x Some y] by simp

lemma ahead_from:
  assumes "ahead (MState i p r) y"
  shows "rest_of y = drop (endIndex_of y - i) r \<and> i \<le> endIndex_of y \<and>
         endIndex_of y \<le> i + length r"
proof -
  from assms obtain consumed where "r = consumed @ rest_of y"
    and "endIndex_of y = i + length consumed"
    by (auto simp: ahead_def)
  then show ?thesis by simp
qed

lemma regex_exec_Some:
  "regex_exec re i p r = Some (start, from_start, y) \<Longrightarrow>
   \<exists>skipped. r = skipped @ from_start \<and> start = i + length skipped \<and>
             rest_of y = drop (endIndex_of y - start) from_start \<and>
             start \<le> endIndex_of y \<and> endIndex_of y \<le> start + length from_start"
proof (induction r arbitrary: i p)
  case Nil
  then have m: "matcher re (MState i p []) Some = Some y" and s: "start = i" "from_start = []"
    by (auto split: option.splits)
  from ahead_from [OF matcher_Some_ahead [OF m]] s show ?case by simp
next
  case (Cons ch r)
  show ?case
  proof (cases "matcher re (MState i p (ch # r)) Some")
    case (Some y')
    with Cons.prems have s: "start = i" "from_start = ch # r" "y' = y" by simp_all
    from ahead_from [OF matcher_Some_ahead [OF Some]] s
    have "rest_of y = drop (endIndex_of y - start) from_start \<and> start \<le> endIndex_of y \<and>
          endIndex_of y \<le> start + length from_start"
      by simp
    with s show ?thesis by (intro exI [of _ "[]"]) simp
  next
    case None
    with Cons.prems have "regex_exec re (i + 1) (Some ch) r = Some (start, from_start, y)" by simp
    from Cons.IH [OF this] obtain skipped where
      "r = skipped @ from_start" "start = i + 1 + length skipped"
      "rest_of y = drop (endIndex_of y - start) from_start"
      "start \<le> endIndex_of y" "endIndex_of y \<le> start + length from_start"
      by blast
    then show ?thesis by (intro exI [of _ "ch # skipped"]) simp
  qed
qed

text \<open>
  Above the length of the input left, the bound of the \<open>matchAll\<close> loop makes no
  difference either.
\<close>

lemma matchAll_loop_unfold:
  "matchAll_loop (Suc b) re (MState i p r) =
     (case regex_exec re i p r of
        None \<Rightarrow> []
      | Some (start, from_start, MState e p' r') \<Rightarrow>
          (start, take (e - start) from_start) #
          (if e = start then
             (case r' of
                [] \<Rightarrow> []
              | ch # r'' \<Rightarrow> matchAll_loop b re (MState (e + 1) (Some ch) r''))
           else matchAll_loop b re (MState e p' r')))"
  by (subst matchAll_loop.simps, unfold diff_Suc_1, simp)

lemma matchAll_loop_bound_Suc:
  "length r < b \<Longrightarrow> matchAll_loop b re (MState i p r) = matchAll_loop (Suc b) re (MState i p r)"
proof (induction b arbitrary: i p r)
  case 0
  then show ?case by simp
next
  case (Suc b)
  show ?case
  proof (cases "regex_exec re i p r")
    case None
    then show ?thesis
      by (simp add: matchAll_loop_unfold [of b] matchAll_loop_unfold [of "Suc b"])
  next
    case (Some res)
    obtain start from_start e p' r' where res: "res = (start, from_start, MState e p' r')"
      by (cases res; cases "snd (snd res)") auto
    from regex_exec_Some [OF Some [unfolded res]] obtain skipped where sk:
      "r = skipped @ from_start" "start = i + length skipped"
      "r' = drop (e - start) from_start" "start \<le> e" "e \<le> start + length from_start"
      by auto
    have moved: "length r' < b" if "e \<noteq> start"
      using sk that Suc.prems by auto
    have empty: "length r'' < b" if "r' = ch # r''" for ch r''
    proof -
      from sk have "length r' = length from_start - (e - start)" by simp
      with that have "length r'' < length from_start" by simp
      with sk Suc.prems show ?thesis by simp
    qed
    have tail: "(if e = start then
              (case r' of [] \<Rightarrow> []
               | ch # r'' \<Rightarrow> matchAll_loop b re (MState (e + 1) (Some ch) r''))
            else matchAll_loop b re (MState e p' r')) =
           (if e = start then
              (case r' of [] \<Rightarrow> []
               | ch # r'' \<Rightarrow> matchAll_loop (Suc b) re (MState (e + 1) (Some ch) r''))
            else matchAll_loop (Suc b) re (MState e p' r'))"
    proof (cases "e = start")
      case True
      show ?thesis
      proof (cases r')
        case Nil
        with True show ?thesis by simp
      next
        case (Cons ch r'')
        from Suc.IH [OF empty [OF Cons]] True Cons show ?thesis by simp
      qed
    next
      case False
      from Suc.IH [OF moved [OF False]] False show ?thesis by simp
    qed
    show ?thesis
      using tail
      by (simp add: matchAll_loop_unfold [of b] matchAll_loop_unfold [of "Suc b"] Some res)
  qed
qed

lemma matchAll_loop_bound_irrelevant:
  assumes "length r < b" and "b \<le> b'"
  shows "matchAll_loop b' re (MState i p r) = matchAll_loop b re (MState i p r)"
  using assms(2,1)
proof (induction b' rule: dec_induct)
  case base
  show ?case by simp
next
  case (step n)
  from step.hyps step.prems have "length r < n" by simp
  from matchAll_loop_bound_Suc [OF this] step.IH [OF step.prems] show ?case by simp
qed

text \<open>
  Every match that \<open>matchAll\<close> reports is the text of the input at its index, and the
  matches come in order without overlap: each starts at or after the end of the one
  before.
\<close>

lemma matchAll_loop_substrings:
  "(j, t) \<in> set (matchAll_loop b re (MState i p r)) \<Longrightarrow>
   i \<le> j \<and> t = take (length t) (drop (j - i) r) \<and> j - i + length t \<le> length r"
proof (induction b arbitrary: i p r)
  case 0
  then show ?case by (simp add: matchAll_loop.simps)
next
  case (Suc b)
  show ?case
  proof (cases "regex_exec re i p r")
    case None
    with Suc.prems show ?thesis by (simp add: matchAll_loop_unfold [of b])
  next
    case (Some res)
    obtain start from_start e p' r' where res: "res = (start, from_start, MState e p' r')"
      by (cases res; cases "snd (snd res)") auto
    from regex_exec_Some [OF Some [unfolded res]] obtain skipped where sk:
      "r = skipped @ from_start" "start = i + length skipped"
      "r' = drop (e - start) from_start" "start \<le> e" "e \<le> start + length from_start"
      by auto
    have from_start: "from_start = drop (start - i) r" using sk by simp
    have r': "r' = drop (e - i) r" using sk by simp
    from Suc.prems consider
        (first) "j = start" "t = take (e - start) from_start"
      | (rest_moved) "e \<noteq> start" "(j, t) \<in> set (matchAll_loop b re (MState e p' r'))"
      | (rest_empty) ch r'' where "e = start" "r' = ch # r''"
          "(j, t) \<in> set (matchAll_loop b re (MState (e + 1) (Some ch) r''))"
      by (auto simp: matchAll_loop_unfold [of b] Some res split: if_splits list.splits)
    then show ?thesis
    proof cases
      case first
      have len: "length t = e - start" using first sk by simp
      have "i \<le> j" using first sk by simp
      moreover have "t = take (length t) (drop (j - i) r)"
        using first len from_start by simp
      moreover have "j - i + length t \<le> length r" using first len sk by simp
      ultimately show ?thesis by simp
    next
      case rest_moved
      from Suc.IH [OF rest_moved(2)]
      have ih: "e \<le> j" "t = take (length t) (drop (j - e) r')" "j - e + length t \<le> length r'"
        by auto
      have ie: "i \<le> e" "e \<le> i + length r" using sk by simp_all
      have same: "drop (j - e) r' = drop (j - i) r"
        using r' ih(1) ie by (simp add: add.commute)
      have "length r' = length r - (e - i)" using r' by simp
      with ih(1,3) ie have "i \<le> j" "j - i + length t \<le> length r" by linarith+
      with ih(2) same show ?thesis by simp
    next
      case rest_empty
      from sk have "e + 1 - i = Suc (e - i)" by simp
      then have "drop (e + 1 - i) r = tl (drop (e - i) r)" by (simp add: drop_Suc tl_drop)
      with rest_empty(2) r' have r'': "r'' = drop (e + 1 - i) r" by simp
      from Suc.IH [OF rest_empty(3)]
      have ih: "e + 1 \<le> j" "t = take (length t) (drop (j - (e + 1)) r'')"
        "j - (e + 1) + length t \<le> length r''"
        by auto
      have ie: "i \<le> e" "e \<le> i + length r" using sk by simp_all
      have same: "drop (j - (e + 1)) r'' = drop (j - i) r"
        using r'' ih(1) ie by (simp add: add.commute)
      have "length r'' = length r - (e + 1 - i)" using r'' by simp
      moreover have "e + 1 \<le> i + length r"
        using rest_empty(2) r' ie by (cases "e - i < length r") auto
      ultimately have "i \<le> j" "j - i + length t \<le> length r" using ih(1,3) ie by linarith+
      with ih(2) same show ?thesis by simp
    qed
  qed
qed

lemma regex_matchAll_substring:
  assumes "(j, t) \<in> set (regex_matchAll re s)"
  shows "t = take (length t) (drop j s) \<and> j + length t \<le> length s"
  using matchAll_loop_substrings [OF assms [unfolded regex_matchAll_def]] by simp

section \<open>The bounds of the parser\<close>

declare parseClassRanges.simps [simp del] parseDisjunction.simps [simp del]
  parseAlternative.simps [simp del] parseTerm.simps [simp del]

lemma parseClassRanges_Suc:
  "parseClassRanges (Suc b) src acc =
     (case classRanges_step src acc of
        ClassEnd cs rest \<Rightarrow> Some (cs, rest)
      | ClassMore rest acc' \<Rightarrow> parseClassRanges b rest acc'
      | ClassError \<Rightarrow> None)"
  by (subst parseClassRanges.simps, unfold diff_Suc_1, simp)

lemma parseDisjunction_Suc:
  "parseDisjunction (Suc b) src =
     (case parseAlternative b src of
        None \<Rightarrow> None
      | Some (a, rest) \<Rightarrow>
          (case rest of
             [] \<Rightarrow> Some (a, [])
           | c # rest' \<Rightarrow>
               if c = cu CHR ''|'' then
                 (case parseDisjunction b rest' of
                    None \<Rightarrow> None
                  | Some (b', rest'') \<Rightarrow> Some (Alt a b', rest''))
               else Some (a, c # rest')))"
  by (subst parseDisjunction.simps, unfold diff_Suc_1, simp)

lemma parseAlternative_Suc:
  "parseAlternative (Suc b) src =
     (case src of
        [] \<Rightarrow> Some (Empty, [])
      | c # rest \<Rightarrow>
          if c = cu CHR ''|'' \<or> c = cu CHR '')'' then Some (Empty, c # rest)
          else (case parseTerm b c rest of
                  None \<Rightarrow> None
                | Some (t, rest') \<Rightarrow>
                    (case parseAlternative b rest' of
                       None \<Rightarrow> None
                     | Some (a, rest'') \<Rightarrow> Some (Seq t a, rest''))))"
  by (subst parseAlternative.simps, unfold diff_Suc_1, simp)

lemma parseTerm_Suc:
  "parseTerm (Suc b) c rest =
     (if c \<noteq> cu CHR ''('' then simpleTerm c rest
      else (case group_open rest of
              (kind, inner) \<Rightarrow>
                if kind = Unsupported then None
                else
                (case parseDisjunction b inner of
                   None \<Rightarrow> None
                 | Some (d, after) \<Rightarrow>
                     (case after of
                        [] \<Rightarrow> None
                      | c' # rest' \<Rightarrow>
                          if c' \<noteq> cu CHR '')'' then None
                          else if kind = PositiveLookahead then Some (Lookahead False d, rest')
                          else if kind = NegativeLookahead then Some (Lookahead True d, rest')
                          else quantified d rest'))))"
  by (subst parseTerm.simps, unfold diff_Suc_1, simp)

text \<open>
  A source that parses under one bound parses to the same expression under every larger
  bound. An exhausted bound gives \<open>None\<close>, so where a parse gives an expression, the bound
  was never reached.
\<close>

lemma parseClassRanges_bound_Suc:
  "parseClassRanges b src acc = Some res \<Longrightarrow> parseClassRanges (Suc b) src acc = Some res"
proof (induction b arbitrary: src acc)
  case 0
  then show ?case by (simp add: parseClassRanges.simps)
next
  case (Suc b)
  show ?case
  proof (cases "classRanges_step src acc")
    case (ClassEnd cs rest)
    with Suc.prems show ?thesis by (simp add: parseClassRanges_Suc)
  next
    case (ClassMore rest acc')
    with Suc.prems have "parseClassRanges b rest acc' = Some res"
      by (simp add: parseClassRanges_Suc [of b])
    from Suc.IH [OF this] ClassMore show ?thesis
      by (simp add: parseClassRanges_Suc [of "Suc b"])
  next
    case ClassError
    with Suc.prems show ?thesis by (simp add: parseClassRanges_Suc)
  qed
qed

lemma parse_bound_Suc:
  "(parseDisjunction b src = Some res \<longrightarrow> parseDisjunction (Suc b) src = Some res) \<and>
   (parseAlternative b src = Some res \<longrightarrow> parseAlternative (Suc b) src = Some res) \<and>
   (parseTerm b c src = Some res \<longrightarrow> parseTerm (Suc b) c src = Some res)"
proof (induction b arbitrary: src res c)
  case 0
  show ?case by (simp add: parseDisjunction.simps parseAlternative.simps parseTerm.simps)
next
  case (Suc b)
  have d: "parseDisjunction b s = Some r \<Longrightarrow> parseDisjunction (Suc b) s = Some r" for s r
    using Suc.IH by blast
  have a: "parseAlternative b s = Some r \<Longrightarrow> parseAlternative (Suc b) s = Some r" for s r
    using Suc.IH by blast
  have t: "parseTerm b c' s = Some r \<Longrightarrow> parseTerm (Suc b) c' s = Some r" for s r c'
    using Suc.IH by blast
  have "parseDisjunction (Suc (Suc b)) src = Some res" if run: "parseDisjunction (Suc b) src = Some res"
  proof -
    from run obtain x rest where alt: "parseAlternative b src = Some (x, rest)"
      by (auto simp: parseDisjunction_Suc [of b] split: option.splits)
    note alt' = a [OF alt]
    show ?thesis
    proof (cases rest)
      case Nil
      with run alt alt' show ?thesis
        by (auto simp: parseDisjunction_Suc [of b] parseDisjunction_Suc [of "Suc b"])
    next
      case (Cons c' rest')
      show ?thesis
      proof (cases "c' = cu CHR ''|''")
        case False
        with run alt alt' Cons show ?thesis
          by (auto simp: parseDisjunction_Suc [of b] parseDisjunction_Suc [of "Suc b"])
      next
        case True
        with run alt Cons obtain y where dis: "parseDisjunction b rest' = Some y"
          by (auto simp: parseDisjunction_Suc [of b] split: option.splits)
        from run alt alt' Cons True dis d [OF dis] show ?thesis
          by (auto simp: parseDisjunction_Suc [of b] parseDisjunction_Suc [of "Suc b"])
      qed
    qed
  qed
  moreover
  have "parseAlternative (Suc (Suc b)) src = Some res" if run: "parseAlternative (Suc b) src = Some res"
  proof (cases src)
    case Nil
    with run show ?thesis
      by (simp add: parseAlternative_Suc [of b] parseAlternative_Suc [of "Suc b"])
  next
    case (Cons c' rest)
    show ?thesis
    proof (cases "c' = cu CHR ''|'' \<or> c' = cu CHR '')''")
      case True
      with run Cons show ?thesis
        by (auto simp: parseAlternative_Suc [of b] parseAlternative_Suc [of "Suc b"])
    next
      case False
      with run Cons obtain x rest' where tm: "parseTerm b c' rest = Some (x, rest')"
        by (auto simp: parseAlternative_Suc [of b] split: option.splits)
      with run Cons False obtain y where alt: "parseAlternative b rest' = Some y"
        by (auto simp: parseAlternative_Suc [of b] split: option.splits)
      from run Cons False tm t [OF tm] alt a [OF alt] show ?thesis
        by (auto simp: parseAlternative_Suc [of b] parseAlternative_Suc [of "Suc b"])
    qed
  qed
  moreover
  have "parseTerm (Suc (Suc b)) c src = Some res" if run: "parseTerm (Suc b) c src = Some res"
  proof (cases "c = cu CHR ''(''")
    case False
    with run show ?thesis by (simp add: parseTerm_Suc)
  next
    case True
    obtain kind inner where g: "group_open src = (kind, inner)" by (cases "group_open src")
    with run True obtain y where dis: "parseDisjunction b inner = Some y"
      by (auto simp: parseTerm_Suc [of b] split: option.splits if_splits)
    from run True g dis d [OF dis] show ?thesis
      by (auto simp: parseTerm_Suc [of b] parseTerm_Suc [of "Suc b"])
  qed
  ultimately show ?case by blast
qed

lemma parseDisjunction_bound_mono:
  assumes "parseDisjunction b src = Some res" and "b \<le> b'"
  shows "parseDisjunction b' src = Some res"
  using assms(2,1)
proof (induction b' rule: dec_induct)
  case base
  then show ?case by simp
next
  case (step n)
  with parse_bound_Suc [of n src res] show ?case by blast
qed

text \<open>The source \<open>(\<close> fails under every bound: the group is never closed.\<close>

lemma parseAlternative_Nil:
  "parseAlternative b [] = (if b = 0 then None else Some (Empty, []))"
  by (simp add: parseAlternative.simps)

lemma parseDisjunction_Nil:
  "parseDisjunction b [] = None \<or> parseDisjunction b [] = Some (Empty, [])"
  by (simp add: parseDisjunction.simps parseAlternative_Nil)

lemma parseTerm_unclosed: "parseTerm b (cu CHR ''('') [] = None"
proof (cases b)
  case 0
  then show ?thesis by (simp add: parseTerm.simps)
next
  case (Suc n)
  from parseDisjunction_Nil [of n] show ?thesis
    unfolding Suc parseTerm_Suc by (auto simp: group_open_def)
qed

lemma parseDisjunction_unclosed: "parseDisjunction b (js ''('') = None"
proof -
  have open_paren: "cu CHR ''('' = 40" "cu CHR ''|'' = 124" "cu CHR '')'' = 41"
    by (simp_all add: cu_def)
  have tm: "parseTerm n 40 [] = None" for n
    using parseTerm_unclosed [of n] by (simp add: open_paren)
  have "parseAlternative n [40] = None" for n
    by (cases n) (simp_all add: parseAlternative.simps parseAlternative_Suc tm open_paren)
  then show ?thesis
    by (cases b) (simp_all add: parseDisjunction.simps parseDisjunction_Suc js_simps)
qed

section \<open>The default patterns compiled\<close>

lemmas parse_eval = js_simps bs_def cu_def RegExp_compile_def parseDisjunction.simps
  parseAlternative.simps parseTerm.simps simpleTerm_def parseClass_def parseClassRanges.simps
  classRanges_step_def classAtom_def parseEscape_def parseQuantifier_def parseBraces_def
  lazy_mark_def quantified_def group_open_def decimal_value_def isDigit_def cs_word_def
  cs_line_terminator_def Let_def

text \<open>
  What the parser makes of each default source. All ten compile.
\<close>

lemma compile_EMAIL:
  "RegExp_compile (pattern EMAIL) = Some (Seq (Repeat (Chars (CAny [CRange 97 122, CRange 65
     90, CRange 48 57, CRange 46 46, CRange 95 95, CRange 37 37, CRange 43 43, CRange 45 45])) 1
     None True) (Seq (Chars (CRange 64 64)) (Seq (Repeat (Chars (CAny [CRange 97 122, CRange 65
     90, CRange 48 57, CRange 46 46, CRange 45 45])) 1 None True) (Seq (Chars (CRange 46 46))
     (Seq (Repeat (Chars (CAny [CRange 97 122, CRange 65 90])) 2 None True) Empty)))))"
  by (simp add: parse_eval EMAIL_def)

lemma compile_PHONE_JP:
  "RegExp_compile (pattern PHONE_JP) = Some (Seq (Alt (Seq (Alt (Seq (Chars (CRange 43 43))
     (Seq (Chars (CRange 56 56)) (Seq (Chars (CRange 49 49)) Empty))) (Seq (Chars (CRange 48 48))
     Empty)) (Seq (Repeat (Chars cs_space) 0 (Some 1) True) (Seq (Repeat (Seq (Repeat (Chars
     cs_digit) 1 (Some 4) True) (Seq (Repeat (Chars (CAny [CRange 45 45, cs_space])) 0 (Some 1)
     True) Empty)) 0 (Some 1) True) (Seq (Repeat (Chars cs_digit) 1 (Some 4) True) (Seq (Repeat
     (Chars (CAny [CRange 45 45, cs_space])) 0 (Some 1) True) (Seq (Repeat (Chars cs_digit) 4
     (Some 4) True) Empty)))))) (Seq (Repeat (Chars cs_digit) 3 (Some 4) True) (Seq (Repeat
     (Chars (CAny [CRange 45 45, cs_space])) 0 (Some 1) True) (Seq (Repeat (Chars cs_digit) 1
     (Some 4) True) (Seq (Repeat (Chars (CAny [CRange 45 45, cs_space])) 0 (Some 1) True) (Seq
     (Repeat (Chars cs_digit) 4 (Some 4) True) Empty)))))) Empty)"
  by (simp add: parse_eval PHONE_JP_def)

lemma compile_CREDIT_CARD:
  "RegExp_compile (pattern CREDIT_CARD) = Some (Seq (WordBoundary False) (Seq (Alt (Seq (Chars
     (CRange 52 52)) (Seq (Repeat (Chars cs_digit) 3 (Some 3) True) Empty)) (Alt (Seq (Chars
     (CRange 53 53)) (Seq (Chars (CAny [CRange 49 53])) (Seq (Repeat (Chars cs_digit) 2 (Some 2)
     True) Empty))) (Alt (Seq (Chars (CRange 51 51)) (Seq (Chars (CAny [CRange 52 52, CRange 55
     55])) (Seq (Repeat (Chars cs_digit) 2 (Some 2) True) Empty))) (Seq (Chars (CRange 54 54))
     (Seq (Chars (CRange 48 48)) (Seq (Chars (CRange 49 49)) (Seq (Chars (CRange 49 49))
     Empty))))))) (Seq (Repeat (Chars (CAny [cs_space, CRange 45 45])) 0 (Some 1) True) (Seq
     (Repeat (Chars cs_digit) 4 (Some 4) True) (Seq (Repeat (Chars (CAny [cs_space, CRange 45
     45])) 0 (Some 1) True) (Seq (Repeat (Chars cs_digit) 4 (Some 4) True) (Seq (Repeat (Chars
     (CAny [cs_space, CRange 45 45])) 0 (Some 1) True) (Seq (Repeat (Chars cs_digit) 4 (Some 4)
     True) (Seq (WordBoundary False) Empty)))))))))"
  by (simp add: parse_eval CREDIT_CARD_def)

lemma compile_POSTAL_CODE_JP:
  "RegExp_compile (pattern POSTAL_CODE_JP) = Some (Seq (WordBoundary False) (Seq (Repeat (Chars
     cs_digit) 3 (Some 3) True) (Seq (Repeat (Chars (CAny [CRange 45 45, cs_space])) 0 (Some 1)
     True) (Seq (Repeat (Chars cs_digit) 4 (Some 4) True) (Seq (WordBoundary False) Empty)))))"
  by (simp add: parse_eval POSTAL_CODE_JP_def)

lemma compile_JAPANESE_NAME:
  "RegExp_compile (pattern JAPANESE_NAME) = Some (Seq (Repeat (Chars (CAny [CRange 19968 40879,
     CRange 12293 12293, CRange 12295 12295])) 1 (Some 4) True) (Seq (Repeat (Chars cs_space) 0
     None True) (Seq (Repeat (Chars (CAny [CRange 19968 40879, CRange 12293 12293, CRange 12295
     12295])) 1 (Some 4) True) (Seq (Lookahead False (Alt (Seq (Chars (CAny [CRange 12373 12373,
     CRange 12435 12435, CRange 124 124, CRange 27096 27096, CRange 124 124, CRange 27663 27663,
     CRange 124 124, CRange 21531 21531, CRange 124 124, CRange 12385 12385, CRange 12419 12419,
     CRange 12435 12435, CRange 124 124, CRange 12367 12367, CRange 12435 12435])) Empty) (Alt
     (Seq AssertEnd Empty) (Seq (Chars cs_space) Empty)))) Empty))))"
  by (simp add: parse_eval JAPANESE_NAME_def)

lemma compile_ADDRESS_JP:
  "RegExp_compile (pattern ADDRESS_JP) = Some (Seq (Chars (CAny [CRange 37117 37117, CRange
     36947 36947, CRange 24220 24220, CRange 30476 30476])) (Seq (Repeat (Chars (CNot (CAny
     [CRange 10 10, CRange 13 13, CRange 8232 8233]))) 0 None False) (Seq (Chars (CAny [CRange
     24066 24066, CRange 21306 21306, CRange 30010 30010, CRange 26449 26449, CRange 37089
     37089])) (Seq (Repeat (Chars (CAny [CRange 19968 40879, CRange 48 57, CRange 19968 19968,
     CRange 20108 20108, CRange 19977 19977, CRange 22235 22235, CRange 20116 20116, CRange 20845
     20845, CRange 19971 19971, CRange 20843 20843, CRange 20061 20061, CRange 21313 21313,
     CRange 30334 30334, CRange 21315 21315])) 1 None True) (Seq (Repeat (Alt (Seq (Chars (CRange
     19969 19969)) (Seq (Chars (CRange 30446 30446)) Empty)) (Alt (Seq (Chars (CRange 30058
     30058)) (Seq (Chars (CRange 22320 22320)) Empty)) (Seq (Chars (CRange 21495 21495)) Empty)))
     0 (Some 1) True) Empty)))))"
  by (simp add: parse_eval ADDRESS_JP_def)

lemma compile_MY_NUMBER:
  "RegExp_compile (pattern MY_NUMBER) = Some (Seq (WordBoundary False) (Seq (Repeat (Chars
     cs_digit) 4 (Some 4) True) (Seq (Repeat (Chars (CAny [cs_space, CRange 45 45])) 0 (Some 1)
     True) (Seq (Repeat (Chars cs_digit) 4 (Some 4) True) (Seq (Repeat (Chars (CAny [cs_space,
     CRange 45 45])) 0 (Some 1) True) (Seq (Repeat (Chars cs_digit) 4 (Some 4) True) (Seq
     (WordBoundary False) Empty)))))))"
  by (simp add: parse_eval MY_NUMBER_def)

lemma compile_BIRTH_DATE:
  "RegExp_compile (pattern BIRTH_DATE) = Some (Seq (Alt (Seq (Chars (CRange 49 49)) (Seq (Chars
     (CRange 57 57)) Empty)) (Seq (Chars (CRange 50 50)) (Seq (Chars (CRange 48 48)) Empty)))
     (Seq (Repeat (Chars cs_digit) 2 (Some 2) True) (Seq (Chars (CAny [CRange 24180 24180, CRange
     47 47, CRange 45 45])) (Seq (Alt (Seq (Repeat (Chars (CRange 48 48)) 0 (Some 1) True) (Seq
     (Chars (CAny [CRange 49 57])) Empty)) (Seq (Chars (CRange 49 49)) (Seq (Chars (CAny [CRange
     48 50])) Empty))) (Seq (Chars (CAny [CRange 26376 26376, CRange 47 47, CRange 45 45])) (Seq
     (Alt (Seq (Repeat (Chars (CRange 48 48)) 0 (Some 1) True) (Seq (Chars (CAny [CRange 49 57]))
     Empty)) (Alt (Seq (Chars (CAny [CRange 49 49, CRange 50 50])) (Seq (Chars cs_digit) Empty))
     (Seq (Chars (CRange 51 51)) (Seq (Chars (CAny [CRange 48 48, CRange 49 49])) Empty)))) (Seq
     (Repeat (Chars (CAny [CRange 26085 26085])) 0 (Some 1) True) Empty)))))))"
  by (simp add: parse_eval BIRTH_DATE_def)

lemma compile_IP_ADDRESS:
  "RegExp_compile (pattern IP_ADDRESS) = Some (Seq (WordBoundary False) (Seq (Repeat (Seq (Alt
     (Seq (Chars (CRange 50 50)) (Seq (Chars (CRange 53 53)) (Seq (Chars (CAny [CRange 48 53]))
     Empty))) (Alt (Seq (Chars (CRange 50 50)) (Seq (Chars (CAny [CRange 48 52])) (Seq (Chars
     (CAny [CRange 48 57])) Empty))) (Seq (Repeat (Chars (CAny [CRange 48 48, CRange 49 49])) 0
     (Some 1) True) (Seq (Chars (CAny [CRange 48 57])) (Seq (Repeat (Chars (CAny [CRange 48 57]))
     0 (Some 1) True) Empty))))) (Seq (Chars (CRange 46 46)) Empty)) 3 (Some 3) True) (Seq (Alt
     (Seq (Chars (CRange 50 50)) (Seq (Chars (CRange 53 53)) (Seq (Chars (CAny [CRange 48 53]))
     Empty))) (Alt (Seq (Chars (CRange 50 50)) (Seq (Chars (CAny [CRange 48 52])) (Seq (Chars
     (CAny [CRange 48 57])) Empty))) (Seq (Repeat (Chars (CAny [CRange 48 48, CRange 49 49])) 0
     (Some 1) True) (Seq (Chars (CAny [CRange 48 57])) (Seq (Repeat (Chars (CAny [CRange 48 57]))
     0 (Some 1) True) Empty))))) (Seq (WordBoundary False) Empty))))"
  by (simp add: parse_eval IP_ADDRESS_def)

lemma compile_BANK_ACCOUNT:
  "RegExp_compile (pattern BANK_ACCOUNT) = Some (Seq (WordBoundary False) (Seq (Repeat (Chars
     cs_digit) 7 (Some 7) True) (Seq (WordBoundary False) Empty)))"
  by (simp add: parse_eval BANK_ACCOUNT_def)

lemmas compile_defaults = compile_EMAIL compile_PHONE_JP compile_CREDIT_CARD compile_POSTAL_CODE_JP
  compile_JAPANESE_NAME compile_ADDRESS_JP compile_MY_NUMBER compile_BIRTH_DATE compile_IP_ADDRESS
  compile_BANK_ACCOUNT

lemma default_pattern_fields:
  "name EMAIL = js ''email''" "enabled EMAIL"
  "name PHONE_JP = js ''phone''" "enabled PHONE_JP"
  "name CREDIT_CARD = js ''creditCard''" "enabled CREDIT_CARD"
  "name POSTAL_CODE_JP = js ''postalCode''" "enabled POSTAL_CODE_JP"
  "name JAPANESE_NAME = js ''japaneseName''" "enabled JAPANESE_NAME"
  "name ADDRESS_JP = js ''address''" "enabled ADDRESS_JP"
  "name MY_NUMBER = js ''myNumber''" "enabled MY_NUMBER"
  "name BIRTH_DATE = js ''birthDate''" "enabled BIRTH_DATE"
  "name IP_ADDRESS = js ''ipAddress''" "\<not> enabled IP_ADDRESS"
  "name BANK_ACCOUNT = js ''bankAccount''" "\<not> enabled BANK_ACCOUNT"
  by (simp_all add: EMAIL_def PHONE_JP_def CREDIT_CARD_def POSTAL_CODE_JP_def JAPANESE_NAME_def
      ADDRESS_JP_def MY_NUMBER_def BIRTH_DATE_def IP_ADDRESS_def BANK_ACCOUNT_def)

lemma compile_malformed: "RegExp_compile (pattern malformed_pattern) = None"
  by (simp add: RegExp_compile_def malformed_pattern_def parseDisjunction_unclosed)

text \<open>An expression that \<open>RegExp_compile\<close> gives is the parse under every larger bound.\<close>

lemma RegExp_compile_any_bound:
  assumes "RegExp_compile src = Some re" and "4 + 2 * length src \<le> b"
  shows "parseDisjunction b src = Some (re, [])"
proof -
  from assms(1) have "parseDisjunction (4 + 2 * length src) src = Some (re, [])"
    by (auto simp: RegExp_compile_def split: option.splits if_splits)
  from parseDisjunction_bound_mono [OF this assms(2)] show ?thesis .
qed

lemma malformed_pattern_fields:
  "name malformed_pattern = js ''custom''" "enabled malformed_pattern"
  by (simp_all add: malformed_pattern_def)

section \<open>The detector on concrete input\<close>

lemmas detect_eval = js_simps detectPII_def detectInText_def new_PIIDetector_def
  initializePatterns_def getAllPatterns_def compile_defaults default_pattern_fields
  compile_malformed malformed_pattern_fields contact_pattern_def
  ecma_host_def regex_matchAll_def matchAll_loop.simps RepeatMatcher.simps is_word_char_def
  cs_digit_def cs_word_def cs_space_def
  or_else_def truthy_def trim_is_empty_def
  isWhiteSpace_def isDigit_def pattern_matches_def shouldIncludeMatch_def isValidMatch_def
  isValidEmail_def isValidPhone_def isValidCreditCard_def isValidJapaneseName_def
  strip_separators_def luhnCheck_def parseInt1_def all_same_digit_def isNameChar_def
  getMaskingType_def buildDetectionContext_def default_settings_def custom_settings_def
  plain_element_def text_node_def Let_def

lemmas postProcess_eval = js_simps postProcessMatches_def removeDuplicateMatches_def
  removeDuplicate_step_def isOverlapping_def shouldReplaceMatch_def priorityOrder_def
  Array_sort_def compareMatches_def plain_element_def Let_def

subsection \<open>One email address\<close>

lemma eval_contact:
  assumes "patterns s = []" and "sensitivity s = high"
  shows "detectPII ecma_host (new_PIIDetector s)
           [\<lparr>parentElement = Some el, textContent = Some (js ''Contact: test@example.com'')\<rparr>] =
         Inr [\<lparr>matchText = js ''test@example.com'', startIndex = 9, endIndex = 25,
               type = js ''email'', element = el,
               match_maskingType = getMaskingType (new_PIIDetector s) (js ''email'')\<rparr>]"
  using assms by (simp add: detect_eval postProcess_eval)

subsection \<open>A postal code inside a phone number\<close>

lemma candidates_postal_phone:
  "detectPII_loop ecma_host (new_PIIDetector (default_settings high))
     [text_node (plain_element 1 ''P'') ''123-4567 8901''] [] =
   Inr [\<lparr>matchText = js ''123-4567 8901'', startIndex = 0, endIndex = 13, type = js ''phone'',
         element = plain_element 1 ''P'', match_maskingType = MOSAIC\<rparr>,
        \<lparr>matchText = js ''123-4567'', startIndex = 0, endIndex = 8, type = js ''postalCode'',
         element = plain_element 1 ''P'', match_maskingType = BLUR\<rparr>]"
  by (simp add: detect_eval)

lemma eval_postal_phone:
  "detectPII ecma_host (new_PIIDetector (default_settings high))
     [text_node (plain_element 1 ''P'') ''123-4567 8901''] =
   Inr [\<lparr>matchText = js ''123-4567'', startIndex = 0, endIndex = 8, type = js ''postalCode'',
         element = plain_element 1 ''P'', match_maskingType = BLUR\<rparr>]"
  unfolding detectPII_def candidates_postal_phone
  by (simp add: postProcess_eval)

subsection \<open>Two patterns that match the same text\<close>

lemma candidates_tie:
  "detectPII_loop ecma_host (new_PIIDetector (custom_settings [EMAIL, contact_pattern] high))
     [text_node (plain_element 1 ''P'') ''a@b.co''] [] =
   Inr [\<lparr>matchText = js ''a@b.co'', startIndex = 0, endIndex = 6, type = js ''email'',
         element = plain_element 1 ''P'', match_maskingType = BLUR\<rparr>,
        \<lparr>matchText = js ''a@b.co'', startIndex = 0, endIndex = 6, type = js ''contact'',
         element = plain_element 1 ''P'', match_maskingType = BLUR\<rparr>]"
  by (simp add: detect_eval)

lemma eval_tie:
  "detectPII ecma_host (new_PIIDetector (custom_settings [EMAIL, contact_pattern] high))
     [text_node (plain_element 1 ''P'') ''a@b.co''] =
   Inr [\<lparr>matchText = js ''a@b.co'', startIndex = 0, endIndex = 6, type = js ''contact'',
         element = plain_element 1 ''P'', match_maskingType = BLUR\<rparr>]"
  unfolding detectPII_def candidates_tie
  by (simp add: postProcess_eval)

subsection \<open>A number that spans two phone numbers\<close>

lemma candidates_spanning:
  "detectPII_loop ecma_host (new_PIIDetector (default_settings high))
     [text_node (plain_element 1 ''P'') ''03-1234 5678 9012-34-5678''] [] =
   Inr [\<lparr>matchText = js ''03-1234 5678'', startIndex = 0, endIndex = 12, type = js ''phone'',
         element = plain_element 1 ''P'', match_maskingType = MOSAIC\<rparr>,
        \<lparr>matchText = js ''9012-34-5678'', startIndex = 13, endIndex = 25, type = js ''phone'',
         element = plain_element 1 ''P'', match_maskingType = MOSAIC\<rparr>,
        \<lparr>matchText = js ''1234 5678 9012'', startIndex = 3, endIndex = 17, type = js ''myNumber'',
         element = plain_element 1 ''P'', match_maskingType = BLUR\<rparr>]"
  by (simp add: detect_eval)

lemma eval_spanning:
  "detectPII ecma_host (new_PIIDetector (default_settings high))
     [text_node (plain_element 1 ''P'') ''03-1234 5678 9012-34-5678''] =
   Inr [\<lparr>matchText = js ''1234 5678 9012'', startIndex = 3, endIndex = 17, type = js ''myNumber'',
         element = plain_element 1 ''P'', match_maskingType = BLUR\<rparr>,
        \<lparr>matchText = js ''9012-34-5678'', startIndex = 13, endIndex = 25, type = js ''phone'',
         element = plain_element 1 ''P'', match_maskingType = MOSAIC\<rparr>]"
  unfolding detectPII_def candidates_spanning
  by (simp add: postProcess_eval)

subsection \<open>An element with two text nodes around a child element\<close>

lemma candidates_interleaved:
  "detectPII_loop ecma_host (new_PIIDetector (default_settings high))
     [text_node (plain_element 1 ''P'') ''mailto: a@b.co'',
      text_node (plain_element 2 ''B'') ''c@d.co'',
      text_node (plain_element 1 ''P'') '' e@f.co''] [] =
   Inr [\<lparr>matchText = js ''a@b.co'', startIndex = 8, endIndex = 14, type = js ''email'',
         element = plain_element 1 ''P'', match_maskingType = BLUR\<rparr>,
        \<lparr>matchText = js ''c@d.co'', startIndex = 0, endIndex = 6, type = js ''email'',
         element = plain_element 2 ''B'', match_maskingType = BLUR\<rparr>,
        \<lparr>matchText = js ''e@f.co'', startIndex = 1, endIndex = 7, type = js ''email'',
         element = plain_element 1 ''P'', match_maskingType = BLUR\<rparr>]"
  by (simp add: detect_eval)

lemma eval_interleaved:
  "detectPII ecma_host (new_PIIDetector (default_settings high))
     [text_node (plain_element 1 ''P'') ''mailto: a@b.co'',
      text_node (plain_element 2 ''B'') ''c@d.co'',
      text_node (plain_element 1 ''P'') '' e@f.co''] =
   Inr [\<lparr>matchText = js ''a@b.co'', startIndex = 8, endIndex = 14, type = js ''email'',
         element = plain_element 1 ''P'', match_maskingType = BLUR\<rparr>,
        \<lparr>matchText = js ''c@d.co'', startIndex = 0, endIndex = 6, type = js ''email'',
         element = plain_element 2 ''B'', match_maskingType = BLUR\<rparr>,
        \<lparr>matchText = js ''e@f.co'', startIndex = 1, endIndex = 7, type = js ''email'',
         element = plain_element 1 ''P'', match_maskingType = BLUR\<rparr>]"
  unfolding detectPII_def candidates_interleaved
  by (simp add: postProcess_eval)

subsection \<open>A malformed pattern\<close>

lemma eval_malformed:
  "detectPII ecma_host (new_PIIDetector (custom_settings [malformed_pattern, EMAIL] high))
     [text_node (plain_element 1 ''P'') ''a@b.co''] = Inl SyntaxError"
  by (simp add: detect_eval)

lemma eval_wellformed:
  "detectPII ecma_host (new_PIIDetector (custom_settings [EMAIL] high))
     [text_node (plain_element 1 ''P'') ''a@b.co''] =
   Inr [\<lparr>matchText = js ''a@b.co'', startIndex = 0, endIndex = 6, type = js ''email'',
         element = plain_element 1 ''P'', match_maskingType = BLUR\<rparr>]"
  by (simp add: detect_eval postProcess_eval)

subsection \<open>A card number\<close>

lemma eval_card:
  "detectPII ecma_host (new_PIIDetector (default_settings low))
     [\<lparr>parentElement = Some labelled_paragraph, textContent = Some (js ''4111-1111 11111111'')\<rparr>] =
   Inr [\<lparr>matchText = js ''4111-1111 11111111'', startIndex = 0, endIndex = 18,
         type = js ''creditCard'', element = labelled_paragraph, match_maskingType = PIXELATE\<rparr>]"
  by (simp add: detect_eval postProcess_eval labelled_paragraph_def getFormContext_def
      getNearbyText_def slice_def toLowerCase_def toLowerCase1_def isLikelyPII_def
      formKeywords_def piiKeywords_def)

lemma eval_bad_card:
  "detectPII ecma_host (new_PIIDetector (default_settings high))
     [text_node (plain_element 1 ''P'') ''4111111111111112''] = Inr []"
  by (simp add: detect_eval postProcess_eval)

section \<open>The claims settled on concrete input\<close>

text \<open>
  C4, as the code has it: for the text \<open>Contact: test@example.com\<close> under \<open>high\<close>
  sensitivity with the default patterns, \<open>detectPII\<close> returns exactly one match, of type
  \<open>email\<close>, with text \<open>test@example.com\<close>, start index 9 and exclusive end index 25
  (9 plus the 16 code units of the address), whatever the element and the other
  settings.
\<close>

theorem detect_contact_email:
  assumes "patterns s = []" and "sensitivity s = high"
  shows "detectPII ecma_host (new_PIIDetector s)
           [\<lparr>parentElement = Some el, textContent = Some (js ''Contact: test@example.com'')\<rparr>] =
         Inr [\<lparr>matchText = js ''test@example.com'', startIndex = 9, endIndex = 25,
               type = js ''email'', element = el,
               match_maskingType = getMaskingType (new_PIIDetector s) (js ''email'')\<rparr>]"
  using assms by (rule eval_contact)

theorem detect_contact_email_witness:
  "patterns (default_settings high) = [] \<and> sensitivity (default_settings high) = high \<and>
   detectPII ecma_host (new_PIIDetector (default_settings high))
     [text_node (plain_element 1 ''P'') ''Contact: test@example.com''] =
   Inr [\<lparr>matchText = js ''test@example.com'', startIndex = 9, endIndex = 25,
         type = js ''email'', element = plain_element 1 ''P'', match_maskingType = BLUR\<rparr>]"
  using detect_contact_email [of "default_settings high" "plain_element 1 ''P''"]
  by (simp add: default_settings_def text_node_def getMaskingType_def new_PIIDetector_def js_simps)

text \<open>
  Where C4 fails as stated: the end index is 25, the length of the whole text, and
  not 26.
\<close>

theorem detect_contact_email_counterexample:
  "detectPII ecma_host (new_PIIDetector (default_settings high))
     [text_node (plain_element 1 ''P'') ''Contact: test@example.com''] =
   Inr [\<lparr>matchText = js ''test@example.com'', startIndex = 9, endIndex = 25,
         type = js ''email'', element = plain_element 1 ''P'', match_maskingType = BLUR\<rparr>] \<and>
   detectPII ecma_host (new_PIIDetector (default_settings high))
     [text_node (plain_element 1 ''P'') ''Contact: test@example.com''] \<noteq>
   Inr [\<lparr>matchText = js ''test@example.com'', startIndex = 9, endIndex = 26,
         type = js ''email'', element = plain_element 1 ''P'', match_maskingType = BLUR\<rparr>] \<and>
   length (js ''Contact: test@example.com'') = 25"
  using eval_contact [of "default_settings high" "plain_element 1 ''P''"]
  by (simp add: default_settings_def text_node_def getMaskingType_def new_PIIDetector_def js_simps)

text \<open>
  C1 on the code. With the default patterns at \<open>high\<close> sensitivity the text
  \<open>123-4567 8901\<close> gives two overlapping candidates of one element: the phone number
  \<open>123-4567 8901\<close> of 13 code units, then the postal code \<open>123-4567\<close> of 8.
  \<open>shouldReplaceMatch\<close> compares the indices of the types in the priority list also
  when the new match is the shorter one, and \<open>indexOf\<close> gives \<open>-1\<close> for \<open>postalCode\<close>,
  which is not in the list: the shorter match of the unlisted type replaces the longer
  match of the listed type. With two patterns that match the same text, the unlisted
  type \<open>contact\<close> wins the equal-length tie against the listed type \<open>email\<close>.
\<close>

theorem overlap_resolution_unlisted_type_wins:
  "detectPII_loop ecma_host (new_PIIDetector (default_settings high))
     [text_node (plain_element 1 ''P'') ''123-4567 8901''] [] =
   Inr [\<lparr>matchText = js ''123-4567 8901'', startIndex = 0, endIndex = 13, type = js ''phone'',
         element = plain_element 1 ''P'', match_maskingType = MOSAIC\<rparr>,
        \<lparr>matchText = js ''123-4567'', startIndex = 0, endIndex = 8, type = js ''postalCode'',
         element = plain_element 1 ''P'', match_maskingType = BLUR\<rparr>] \<and>
   detectPII ecma_host (new_PIIDetector (default_settings high))
     [text_node (plain_element 1 ''P'') ''123-4567 8901''] =
   Inr [\<lparr>matchText = js ''123-4567'', startIndex = 0, endIndex = 8, type = js ''postalCode'',
         element = plain_element 1 ''P'', match_maskingType = BLUR\<rparr>] \<and>
   detectPII_loop ecma_host (new_PIIDetector (custom_settings [EMAIL, contact_pattern] high))
     [text_node (plain_element 1 ''P'') ''a@b.co''] [] =
   Inr [\<lparr>matchText = js ''a@b.co'', startIndex = 0, endIndex = 6, type = js ''email'',
         element = plain_element 1 ''P'', match_maskingType = BLUR\<rparr>,
        \<lparr>matchText = js ''a@b.co'', startIndex = 0, endIndex = 6, type = js ''contact'',
         element = plain_element 1 ''P'', match_maskingType = BLUR\<rparr>] \<and>
   detectPII ecma_host (new_PIIDetector (custom_settings [EMAIL, contact_pattern] high))
     [text_node (plain_element 1 ''P'') ''a@b.co''] =
   Inr [\<lparr>matchText = js ''a@b.co'', startIndex = 0, endIndex = 6, type = js ''contact'',
         element = plain_element 1 ''P'', match_maskingType = BLUR\<rparr>]"
  using candidates_postal_phone eval_postal_phone candidates_tie eval_tie by simp

theorem overlap_resolution_unlisted_type_wins_witness:
  "detectPII ecma_host (new_PIIDetector (default_settings high))
     [text_node (plain_element 1 ''P'') ''123-4567 8901''] =
   Inr [\<lparr>matchText = js ''123-4567'', startIndex = 0, endIndex = 8, type = js ''postalCode'',
         element = plain_element 1 ''P'', match_maskingType = BLUR\<rparr>] \<and>
   length (js ''123-4567'') < length (js ''123-4567 8901'') \<and>
   indexOf priorityOrder (js ''postalCode'') = -1 \<and>
   indexOf priorityOrder (js ''phone'') = 3"
  using overlap_resolution_unlisted_type_wins
  by (simp add: js_simps priorityOrder_def)

text \<open>
  C2 on the code. With the default patterns at \<open>high\<close> sensitivity the text
  \<open>03-1234 5678 9012-34-5678\<close> gives the phone numbers at 0 to 12 and at 13 to 25, then
  the 12-digit number \<open>1234 5678 9012\<close> at 3 to 17. \<open>removeDuplicateMatches\<close> replaces the
  first kept match that the new one overlaps and does not look at the others: the
  output holds the matches at 3 to 17 and at 13 to 25, which intersect.
\<close>

theorem overlap_resolution_leaves_overlap:
  "detectPII_loop ecma_host (new_PIIDetector (default_settings high))
     [text_node (plain_element 1 ''P'') ''03-1234 5678 9012-34-5678''] [] =
   Inr [\<lparr>matchText = js ''03-1234 5678'', startIndex = 0, endIndex = 12, type = js ''phone'',
         element = plain_element 1 ''P'', match_maskingType = MOSAIC\<rparr>,
        \<lparr>matchText = js ''9012-34-5678'', startIndex = 13, endIndex = 25, type = js ''phone'',
         element = plain_element 1 ''P'', match_maskingType = MOSAIC\<rparr>,
        \<lparr>matchText = js ''1234 5678 9012'', startIndex = 3, endIndex = 17, type = js ''myNumber'',
         element = plain_element 1 ''P'', match_maskingType = BLUR\<rparr>] \<and>
   detectPII ecma_host (new_PIIDetector (default_settings high))
     [text_node (plain_element 1 ''P'') ''03-1234 5678 9012-34-5678''] =
   Inr [\<lparr>matchText = js ''1234 5678 9012'', startIndex = 3, endIndex = 17, type = js ''myNumber'',
         element = plain_element 1 ''P'', match_maskingType = BLUR\<rparr>,
        \<lparr>matchText = js ''9012-34-5678'', startIndex = 13, endIndex = 25, type = js ''phone'',
         element = plain_element 1 ''P'', match_maskingType = MOSAIC\<rparr>] \<and>
   overlap_in_span
     \<lparr>matchText = js ''1234 5678 9012'', startIndex = 3, endIndex = 17, type = js ''myNumber'',
        element = plain_element 1 ''P'', match_maskingType = BLUR\<rparr>
     \<lparr>matchText = js ''9012-34-5678'', startIndex = 13, endIndex = 25, type = js ''phone'',
        element = plain_element 1 ''P'', match_maskingType = MOSAIC\<rparr>"
  using candidates_spanning eval_spanning by (simp add: overlap_in_span_def)

theorem overlap_resolution_leaves_overlap_witness:
  "map (\<lambda>m. (startIndex m, endIndex m))
     (case detectPII ecma_host (new_PIIDetector (default_settings high))
             [text_node (plain_element 1 ''P'') ''03-1234 5678 9012-34-5678''] of
        Inl e \<Rightarrow> [] | Inr ms \<Rightarrow> ms) = [(3, 17), (13, 25)]"
  using overlap_resolution_leaves_overlap by simp

text \<open>
  C7 on the code. A paragraph (element 1) holds a text node, a child element (element
  2) and a second text node; each of the three text nodes holds an email address. The
  comparator answers 0 for two matches of different elements, so each match compares
  equal to its neighbour and the sort leaves the list as it was: the matches of element
  1 are not adjacent, and they come with start index 8 before start index 1.
\<close>

theorem postProcess_interleaved_not_sorted:
  "detectPII ecma_host (new_PIIDetector (default_settings high))
     [text_node (plain_element 1 ''P'') ''mailto: a@b.co'',
      text_node (plain_element 2 ''B'') ''c@d.co'',
      text_node (plain_element 1 ''P'') '' e@f.co''] =
   Inr [\<lparr>matchText = js ''a@b.co'', startIndex = 8, endIndex = 14, type = js ''email'',
         element = plain_element 1 ''P'', match_maskingType = BLUR\<rparr>,
        \<lparr>matchText = js ''c@d.co'', startIndex = 0, endIndex = 6, type = js ''email'',
         element = plain_element 2 ''B'', match_maskingType = BLUR\<rparr>,
        \<lparr>matchText = js ''e@f.co'', startIndex = 1, endIndex = 7, type = js ''email'',
         element = plain_element 1 ''P'', match_maskingType = BLUR\<rparr>]"
  by (rule eval_interleaved)

theorem postProcess_interleaved_not_sorted_witness:
  "map (\<lambda>m. (ref (element m), startIndex m))
     (case detectPII ecma_host (new_PIIDetector (default_settings high))
             [text_node (plain_element 1 ''P'') ''mailto: a@b.co'',
              text_node (plain_element 2 ''B'') ''c@d.co'',
              text_node (plain_element 1 ''P'') '' e@f.co''] of
        Inl e \<Rightarrow> [] | Inr ms \<Rightarrow> ms) = [(1, 8), (2, 0), (1, 1)]"
  using postProcess_interleaved_not_sorted by (simp add: plain_element_def)

text \<open>
  Where C3 fails as stated: with the caller's patterns \<open>(\<close> (an unterminated group) and
  the email pattern, a text node that holds an email address makes \<open>detectPII\<close> raise
  \<open>SyntaxError\<close>. The malformed pattern is not skipped: with the email pattern alone the
  same node gives the email match.
\<close>

theorem malformed_pattern_counterexample:
  "detectPII ecma_host (new_PIIDetector (custom_settings [malformed_pattern, EMAIL] high))
     [text_node (plain_element 1 ''P'') ''a@b.co''] = Inl SyntaxError \<and>
   detectPII ecma_host (new_PIIDetector (custom_settings [EMAIL] high))
     [text_node (plain_element 1 ''P'') ''a@b.co''] =
   Inr [\<lparr>matchText = js ''a@b.co'', startIndex = 0, endIndex = 6, type = js ''email'',
         element = plain_element 1 ''P'', match_maskingType = BLUR\<rparr>]"
  using eval_malformed eval_wellformed by simp

lemma scanned_example: "scanned (text_node (plain_element 1 ''P'') ''a@b.co'')"
  by (simp add: scanned_def text_node_def or_else_def trim_is_empty_def isWhiteSpace_def js_simps)

lemma fails_to_compile_malformed: "fails_to_compile ecma_host malformed_pattern"
  by (simp add: fails_to_compile_def ecma_host_def compile_malformed malformed_pattern_fields)

lemma defaults_compile: "\<not> (\<exists>p \<in> set getAllPatterns. fails_to_compile ecma_host p)"
  by (simp add: fails_to_compile_def ecma_host_def getAllPatterns_def compile_defaults)

lemma scanned_hello: "scanned (text_node (plain_element 1 ''P'') ''hello'')"
  by (simp add: scanned_def text_node_def or_else_def trim_is_empty_def isWhiteSpace_def js_simps)

lemma non_matching_hello:
  "non_matching ecma_host (new_PIIDetector (default_settings high))
     (text_node (plain_element 1 ''P'') ''hello'')"
  by (simp add: non_matching_def new_PIIDetector_def initializePatterns_def default_settings_def
        getAllPatterns_def text_node_def or_else_def detect_eval)

theorem detectPII_raises_iff_witness:
  "detectPII ecma_host (new_PIIDetector (custom_settings [malformed_pattern, EMAIL] high))
     [text_node (plain_element 1 ''P'') ''a@b.co''] = Inl SyntaxError \<and>
   detectPII ecma_host (new_PIIDetector (custom_settings [malformed_pattern, EMAIL] high)) [] = Inr [] \<and>
   (\<exists>ms. detectPII ecma_host (new_PIIDetector (default_settings high))
           [text_node (plain_element 1 ''P'') ''a@b.co''] = Inr ms) \<and>
   scanned (text_node (plain_element 1 ''P'') ''hello'') \<and>
   detectPII ecma_host (new_PIIDetector (default_settings high))
     [text_node (plain_element 1 ''P'') ''hello''] = Inr []"
proof (intro conjI)
  let ?bad = "new_PIIDetector (custom_settings [malformed_pattern, EMAIL] high)"
  let ?node = "text_node (plain_element 1 ''P'') ''a@b.co''"
  have pats: "this_patterns ?bad = [malformed_pattern, EMAIL]"
    by (simp add: new_PIIDetector_def initializePatterns_def custom_settings_def)
  show "detectPII ecma_host ?bad [?node] = Inl SyntaxError"
    using detectPII_raises_iff [of ecma_host ?bad "[?node]"] scanned_example
      fails_to_compile_malformed pats by simp
  show "detectPII ecma_host ?bad [] = Inr []"
    using detectPII_raises_iff [of ecma_host ?bad "[]"] by simp
  have "this_patterns (new_PIIDetector (default_settings high)) = getAllPatterns"
    by (simp add: new_PIIDetector_def initializePatterns_def default_settings_def)
  then show "\<exists>ms. detectPII ecma_host (new_PIIDetector (default_settings high)) [?node] = Inr ms"
    using detectPII_raises_iff [of ecma_host "new_PIIDetector (default_settings high)" "[?node]"]
      defaults_compile by simp
  show "scanned (text_node (plain_element 1 ''P'') ''hello'')" by (rule scanned_hello)
  from \<open>this_patterns (new_PIIDetector (default_settings high)) = getAllPatterns\<close>
  show "detectPII ecma_host (new_PIIDetector (default_settings high))
          [text_node (plain_element 1 ''P'') ''hello''] = Inr []"
    using detectPII_raises_iff [of ecma_host "new_PIIDetector (default_settings high)"
        "[text_node (plain_element 1 ''P'') ''hello'']"]
      defaults_compile non_matching_hello by simp
qed

theorem creditCard_matches_pass_luhn_witness:
  "detectPII ecma_host (new_PIIDetector (default_settings low))
     [\<lparr>parentElement = Some labelled_paragraph, textContent = Some (js ''4111-1111 11111111'')\<rparr>] =
   Inr [\<lparr>matchText = js ''4111-1111 11111111'', startIndex = 0, endIndex = 18,
         type = js ''creditCard'', element = labelled_paragraph, match_maskingType = PIXELATE\<rparr>] \<and>
   strip_separators (js ''4111-1111 11111111'') = filter isDigit (js ''4111-1111 11111111'') \<and>
   spec_luhn_valid (filter isDigit (js ''4111-1111 11111111''))"
  using eval_card
    creditCard_matches_pass_luhn [OF eval_card,
      of "\<lparr>matchText = js ''4111-1111 11111111'', startIndex = 0, endIndex = 18,
           type = js ''creditCard'', element = labelled_paragraph, match_maskingType = PIXELATE\<rparr>"]
  by simp

theorem medium_accepts_iff_witness:
  "sensitivity (this_settings (new_PIIDetector (default_settings medium))) = medium \<and>
   isValidMatch (js ''a@b.co'') (name EMAIL) \<and>
   shouldIncludeMatch (new_PIIDetector (default_settings medium)) (js ''a@b.co'') EMAIL
     (buildDetectionContext (plain_element 1 ''DIV'') (js ''a@b.co'')) \<and>
   \<not> shouldIncludeMatch (new_PIIDetector (default_settings medium)) (js ''a@b.co'') EMAIL
       (buildDetectionContext (plain_element 1 ''P'') (js ''a@b.co''))"
proof -
  let ?d = "new_PIIDetector (default_settings medium)"
  have s: "sensitivity (this_settings ?d) = medium"
    by (simp add: new_PIIDetector_def default_settings_def)
  have v: "isValidMatch (js ''a@b.co'') (name EMAIL)"
    by (simp add: isValidMatch_def isValidEmail_def default_pattern_fields js_simps)
  have ctx: "formContext (buildDetectionContext (plain_element r tag) t) = Some []"
    "elementType (buildDetectionContext (plain_element r tag) t) = toLowerCase (js tag)" for r tag t
    by (simp_all add: buildDetectionContext_def plain_element_def getFormContext_def)
  show ?thesis
    using s v
      medium_accepts_iff [OF s v, of "buildDetectionContext (plain_element 1 ''DIV'') (js ''a@b.co'')"]
      medium_accepts_iff [OF s v, of "buildDetectionContext (plain_element 1 ''P'') (js ''a@b.co'')"]
    by (simp add: ctx truthy_def toLowerCase_def toLowerCase1_def js_simps)
qed

text \<open>
  Where C6 fails as stated: a paragraph outside any form, next to a label \<open>Email:\<close>. The
  form context is empty and the nearby text holds the keyword \<open>email\<close>, so the
  corroboration of the \<open>Low\<close> policy holds; the \<open>Medium\<close> policy rejects the valid
  candidate all the same, since it looks at the form context and the element type
  only.
\<close>

theorem medium_accepts_counterexample:
  "sensitivity (this_settings (new_PIIDetector (default_settings medium))) = medium \<and>
   isValidMatch (js ''a@b.co'') (name EMAIL) \<and>
   nearbyText (buildDetectionContext labelled_paragraph (js ''a@b.co'')) = Some (js ''email: a@b.co'') \<and>
   formContext (buildDetectionContext labelled_paragraph (js ''a@b.co'')) = Some [] \<and>
   spec_medium_accept (js ''a@b.co'') (buildDetectionContext labelled_paragraph (js ''a@b.co'')) \<and>
   \<not> shouldIncludeMatch (new_PIIDetector (default_settings medium)) (js ''a@b.co'') EMAIL
       (buildDetectionContext labelled_paragraph (js ''a@b.co''))"
  by (simp add: new_PIIDetector_def default_settings_def isValidMatch_def isValidEmail_def
      default_pattern_fields js_simps buildDetectionContext_def labelled_paragraph_def
      getFormContext_def getNearbyText_def slice_def toLowerCase_def toLowerCase1_def
      or_else_def truthy_def spec_medium_accept_def spec_corroborated_def isLikelyPII_def
      formKeywords_def piiKeywords_def shouldIncludeMatch_def isMediumConfidenceMatch_def
      highConfidenceElements_def Let_def)

section \<open>Further properties of the detector\<close>

text \<open>
  Every match that \<open>detectPII\<close> returns passed the structural validator of its type,
  at every sensitivity.
\<close>

theorem returned_matches_are_valid:
  assumes "detectPII h this textNodes = Inr ms" and "m \<in> set ms"
  shows "isValidMatch (matchText m) (type m)"
  using assms by (rule detectPII_valid)

theorem returned_matches_are_valid_witness:
  "isValidMatch (js ''a@b.co'') (js ''email'')"
  using returned_matches_are_valid [OF eval_wellformed,
      of "\<lparr>matchText = js ''a@b.co'', startIndex = 0, endIndex = 6, type = js ''email'',
           element = plain_element 1 ''P'', match_maskingType = BLUR\<rparr>"]
  by simp

theorem detectPII_one_node_sorted_witness:
  "sorted (map startIndex
     [\<lparr>matchText = js ''1234 5678 9012'', startIndex = 3, endIndex = 17, type = js ''myNumber'',
        element = plain_element 1 ''P'', match_maskingType = BLUR\<rparr>,
      \<lparr>matchText = js ''9012-34-5678'', startIndex = 13, endIndex = 25, type = js ''phone'',
        element = plain_element 1 ''P'', match_maskingType = MOSAIC\<rparr>])"
  using detectPII_one_node_sorted [OF eval_spanning] .

theorem postProcessMatches_one_element_sorted_witness:
  "sorted (map startIndex (postProcessMatches
     [\<lparr>matchText = js ''123-4567 8901'', startIndex = 0, endIndex = 13, type = js ''phone'',
        element = plain_element 1 ''P'', match_maskingType = MOSAIC\<rparr>,
      \<lparr>matchText = js ''123-4567'', startIndex = 0, endIndex = 8, type = js ''postalCode'',
        element = plain_element 1 ''P'', match_maskingType = BLUR\<rparr>]))"
  using postProcessMatches_one_element_sorted
    [of "[\<lparr>matchText = js ''123-4567 8901'', startIndex = 0, endIndex = 13, type = js ''phone'',
            element = plain_element 1 ''P'', match_maskingType = MOSAIC\<rparr>,
          \<lparr>matchText = js ''123-4567'', startIndex = 0, endIndex = 8, type = js ''postalCode'',
            element = plain_element 1 ''P'', match_maskingType = BLUR\<rparr>]" 1]
  by (simp add: plain_element_def)

section \<open>The two sorts on the inputs of the examples\<close>

text \<open>
  On the candidates of each example above, the sort of V8 gives what \<open>Array_sort\<close>
  gives: the results of the examples do not depend on which of the two sorts the
  detector runs on.
\<close>

lemmas sort_eval = postProcess_eval Array_sort_V8_def binary_search.simps

lemma sorts_agree_postal_phone:
  "Array_sort_V8 compareMatches (removeDuplicateMatches
     [\<lparr>matchText = js ''123-4567 8901'', startIndex = 0, endIndex = 13, type = js ''phone'',
        element = plain_element 1 ''P'', match_maskingType = MOSAIC\<rparr>,
      \<lparr>matchText = js ''123-4567'', startIndex = 0, endIndex = 8, type = js ''postalCode'',
        element = plain_element 1 ''P'', match_maskingType = BLUR\<rparr>]) =
   postProcessMatches
     [\<lparr>matchText = js ''123-4567 8901'', startIndex = 0, endIndex = 13, type = js ''phone'',
        element = plain_element 1 ''P'', match_maskingType = MOSAIC\<rparr>,
      \<lparr>matchText = js ''123-4567'', startIndex = 0, endIndex = 8, type = js ''postalCode'',
        element = plain_element 1 ''P'', match_maskingType = BLUR\<rparr>]"
  by (simp add: sort_eval)

lemma sorts_agree_tie:
  "Array_sort_V8 compareMatches (removeDuplicateMatches
     [\<lparr>matchText = js ''a@b.co'', startIndex = 0, endIndex = 6, type = js ''email'',
        element = plain_element 1 ''P'', match_maskingType = BLUR\<rparr>,
      \<lparr>matchText = js ''a@b.co'', startIndex = 0, endIndex = 6, type = js ''contact'',
        element = plain_element 1 ''P'', match_maskingType = BLUR\<rparr>]) =
   postProcessMatches
     [\<lparr>matchText = js ''a@b.co'', startIndex = 0, endIndex = 6, type = js ''email'',
        element = plain_element 1 ''P'', match_maskingType = BLUR\<rparr>,
      \<lparr>matchText = js ''a@b.co'', startIndex = 0, endIndex = 6, type = js ''contact'',
        element = plain_element 1 ''P'', match_maskingType = BLUR\<rparr>]"
  by (simp add: sort_eval)

lemma sorts_agree_spanning:
  "Array_sort_V8 compareMatches (removeDuplicateMatches
     [\<lparr>matchText = js ''03-1234 5678'', startIndex = 0, endIndex = 12, type = js ''phone'',
        element = plain_element 1 ''P'', match_maskingType = MOSAIC\<rparr>,
      \<lparr>matchText = js ''9012-34-5678'', startIndex = 13, endIndex = 25, type = js ''phone'',
        element = plain_element 1 ''P'', match_maskingType = MOSAIC\<rparr>,
      \<lparr>matchText = js ''1234 5678 9012'', startIndex = 3, endIndex = 17, type = js ''myNumber'',
        element = plain_element 1 ''P'', match_maskingType = BLUR\<rparr>]) =
   postProcessMatches
     [\<lparr>matchText = js ''03-1234 5678'', startIndex = 0, endIndex = 12, type = js ''phone'',
        element = plain_element 1 ''P'', match_maskingType = MOSAIC\<rparr>,
      \<lparr>matchText = js ''9012-34-5678'', startIndex = 13, endIndex = 25, type = js ''phone'',
        element = plain_element 1 ''P'', match_maskingType = MOSAIC\<rparr>,
      \<lparr>matchText = js ''1234 5678 9012'', startIndex = 3, endIndex = 17, type = js ''myNumber'',
        element = plain_element 1 ''P'', match_maskingType = BLUR\<rparr>]"
  by (simp add: sort_eval)

lemma sorts_agree_interleaved:
  "Array_sort_V8 compareMatches (removeDuplicateMatches
     [\<lparr>matchText = js ''a@b.co'', startIndex = 8, endIndex = 14, type = js ''email'',
        element = plain_element 1 ''P'', match_maskingType = BLUR\<rparr>,
      \<lparr>matchText = js ''c@d.co'', startIndex = 0, endIndex = 6, type = js ''email'',
        element = plain_element 2 ''B'', match_maskingType = BLUR\<rparr>,
      \<lparr>matchText = js ''e@f.co'', startIndex = 1, endIndex = 7, type = js ''email'',
        element = plain_element 1 ''P'', match_maskingType = BLUR\<rparr>]) =
   postProcessMatches
     [\<lparr>matchText = js ''a@b.co'', startIndex = 8, endIndex = 14, type = js ''email'',
        element = plain_element 1 ''P'', match_maskingType = BLUR\<rparr>,
      \<lparr>matchText = js ''c@d.co'', startIndex = 0, endIndex = 6, type = js ''email'',
        element = plain_element 2 ''B'', match_maskingType = BLUR\<rparr>,
      \<lparr>matchText = js ''e@f.co'', startIndex = 1, endIndex = 7, type = js ''email'',
        element = plain_element 1 ''P'', match_maskingType = BLUR\<rparr>]"
  by (simp add: sort_eval)

text \<open>
  The two sorts do differ where the comparator is not consistent. Four matches, the
  third in another element than the rest: \<open>Array_sort\<close> leaves the match that starts at 7
  behind the match of the other element; the sort of V8 moves it before the match that
  starts at 14. On the three matches of the example with two text nodes around a child
  element both sorts leave the list as it is, as the lemma before this one shows.
\<close>

lemma sorts_differ:
  "map (\<lambda>m. (ref (element m), startIndex m))
     (Array_sort compareMatches
        [\<lparr>matchText = js ''a@b.co'', startIndex = 14, endIndex = 20, type = js ''email'',
           element = plain_element 1 ''P'', match_maskingType = BLUR\<rparr>,
         \<lparr>matchText = js ''c@d.co'', startIndex = 0, endIndex = 6, type = js ''email'',
           element = plain_element 1 ''P'', match_maskingType = BLUR\<rparr>,
         \<lparr>matchText = js ''e@f.co'', startIndex = 0, endIndex = 6, type = js ''email'',
           element = plain_element 2 ''B'', match_maskingType = BLUR\<rparr>,
         \<lparr>matchText = js ''g@h.co'', startIndex = 7, endIndex = 13, type = js ''email'',
           element = plain_element 1 ''P'', match_maskingType = BLUR\<rparr>]) =
   [(1, 0), (1, 14), (2, 0), (1, 7)] \<and>
   map (\<lambda>m. (ref (element m), startIndex m))
     (Array_sort_V8 compareMatches
        [\<lparr>matchText = js ''a@b.co'', startIndex = 14, endIndex = 20, type = js ''email'',
           element = plain_element 1 ''P'', match_maskingType = BLUR\<rparr>,
         \<lparr>matchText = js ''c@d.co'', startIndex = 0, endIndex = 6, type = js ''email'',
           element = plain_element 1 ''P'', match_maskingType = BLUR\<rparr>,
         \<lparr>matchText = js ''e@f.co'', startIndex = 0, endIndex = 6, type = js ''email'',
           element = plain_element 2 ''B'', match_maskingType = BLUR\<rparr>,
         \<lparr>matchText = js ''g@h.co'', startIndex = 7, endIndex = 13, type = js ''email'',
           element = plain_element 1 ''P'', match_maskingType = BLUR\<rparr>]) =
   [(1, 0), (1, 7), (1, 14), (2, 0)]"
  by (simp add: sort_eval)

section \<open>The two sorts under a consistent comparator\<close>

text \<open>
  Where the comparator compares by a key, as the comparator of \<open>postProcessMatches\<close>
  does among the matches of one element, both \<open>Array_sort\<close> and the sort of V8 give the
  stable sort by that key: there the model of the sort and the engine agree.
\<close>

lemma set_insert_after: "set (insert_after f x ys) = insert x (set ys)"
  by (induction ys) auto

lemma sorted_insert_after:
  "sorted (map f ys) \<Longrightarrow> sorted (map f (insert_after f x ys))"
  by (induction ys) (auto simp: set_insert_after)

lemma insert_after_snoc_gt:
  "f x < f z \<Longrightarrow> insert_after f x (zs @ [z]) = insert_after f x zs @ [z]"
  by (induction zs) auto

lemma insert_after_all_le:
  "\<forall>y \<in> set ys. f y \<le> f x \<Longrightarrow> insert_after f x ys = ys @ [x]"
  by (induction ys) auto

lemma insert_after_all_gt:
  "\<forall>y \<in> set ys. f x < f y \<Longrightarrow> insert_after f x ys = x # ys"
  by (cases ys) auto

lemma sorted_foldl_insert_after:
  "sorted (map f ys) \<Longrightarrow> sorted (map f (foldl (\<lambda>ys x. insert_after f x ys) ys xs))"
  by (induction xs arbitrary: ys) (simp_all add: sorted_insert_after)

lemma set_foldl_insert_after:
  "set (foldl (\<lambda>ys x. insert_after f x ys) ys xs) = set ys \<union> set xs"
  by (induction xs arbitrary: ys) (auto simp: set_insert_after)

subsection \<open>The insertion sort\<close>

lemma insert_left_insert_after:
  assumes "sorted (map f ys)" and "\<forall>y \<in> set ys. cmp y x = int (f y) - int (f x)"
  shows "insert_left cmp x (rev ys) = rev (insert_after f x ys)"
  using assms
proof (induction ys rule: rev_induct)
  case Nil
  show ?case by simp
next
  case (snoc z zs)
  from snoc.prems have sorted: "sorted (map f zs)" and le: "\<forall>y \<in> set zs. f y \<le> f z"
    by (auto simp: sorted_append)
  from snoc.prems have cmp: "cmp z x = int (f z) - int (f x)" by simp
  show ?case
  proof (cases "f x < f z")
    case True
    with cmp have "cmp z x > 0" by simp
    moreover from snoc.IH [OF sorted] snoc.prems(2)
    have "insert_left cmp x (rev zs) = rev (insert_after f x zs)" by simp
    ultimately show ?thesis using True by (simp add: insert_after_snoc_gt)
  next
    case False
    with cmp have "\<not> cmp z x > 0" by simp
    moreover from False le have "\<forall>y \<in> set (zs @ [z]). f y \<le> f x" by auto
    then have "insert_after f x (zs @ [z]) = (zs @ [z]) @ [x]" by (rule insert_after_all_le)
    ultimately show ?thesis by simp
  qed
qed

lemma sort_loop_stable:
  assumes "sorted (map f ys)" and "compares_by cmp f (ys @ xs)"
  shows "sort_loop cmp xs (rev ys) = foldl (\<lambda>ys x. insert_after f x ys) ys xs"
  using assms
proof (induction xs arbitrary: ys)
  case Nil
  show ?case by simp
next
  case (Cons x xs)
  from Cons.prems(2) have "\<forall>y \<in> set ys. cmp y x = int (f y) - int (f x)"
    by (simp add: compares_by_def)
  with Cons.prems(1) have step: "insert_left cmp x (rev ys) = rev (insert_after f x ys)"
    by (rule insert_left_insert_after [of f ys cmp x])
  from Cons.prems(2) have "compares_by cmp f (insert_after f x ys @ xs)"
    by (auto simp: compares_by_def set_insert_after)
  from Cons.IH [OF sorted_insert_after [OF Cons.prems(1)] this] step
  show ?case by simp
qed

lemma Array_sort_stable:
  assumes "compares_by cmp f xs"
  shows "Array_sort cmp xs = stable_sort f xs"
  using sort_loop_stable [of f "[]" cmp xs] assms
  by (simp add: Array_sort_def stable_sort_def)

subsection \<open>The sort of V8\<close>

lemma binary_search_place:
  assumes "sorted (map f pre)" and "\<forall>y \<in> set pre. cmp pivot y = int (f pivot) - int (f y)"
    and "left \<le> right" and "right \<le> length pre"
    and "\<forall>i < left. f (pre ! i) \<le> f pivot"
    and "\<forall>i. right \<le> i \<and> i < length pre \<longrightarrow> f pivot < f (pre ! i)"
  shows "binary_search cmp pivot pre left right \<le> length pre \<and>
         (\<forall>i < binary_search cmp pivot pre left right. f (pre ! i) \<le> f pivot) \<and>
         (\<forall>i. binary_search cmp pivot pre left right \<le> i \<and> i < length pre \<longrightarrow>
              f pivot < f (pre ! i))"
  using assms
proof (induction cmp pivot pre left right rule: binary_search.induct)
  case (1 cmp pivot xs left right)
  note unfold = binary_search.simps [of cmp pivot xs left right]
  show ?case
  proof (cases "left < right")
    case False
    then have found: "binary_search cmp pivot xs left right = left" by (simp add: unfold)
    from False "1.prems"(3) have "left = right" by simp
    with "1.prems"(4,5,6) show ?thesis unfolding found by simp
  next
    case True
    let ?mid = "left + (right - left) div 2"
    from True have mid: "left \<le> ?mid" "?mid < right" by auto
    with "1.prems"(4) have in_range: "?mid < length xs" by simp
    then have cmp: "cmp pivot (xs ! ?mid) = int (f pivot) - int (f (xs ! ?mid))"
      using "1.prems"(2) by simp
    have mono: "f (xs ! i) \<le> f (xs ! j)" if "i \<le> j" "j < length xs" for i j
      using "1.prems"(1) that by (simp add: sorted_iff_nth_mono)
    show ?thesis
    proof (cases "cmp pivot (xs ! ?mid) < 0")
      case less: True
      with cmp have lt: "f pivot < f (xs ! ?mid)" by simp
      have "\<forall>i. ?mid \<le> i \<and> i < length xs \<longrightarrow> f pivot < f (xs ! i)"
      proof (intro allI impI)
        fix i assume "?mid \<le> i \<and> i < length xs"
        then have "f (xs ! ?mid) \<le> f (xs ! i)" using mono by blast
        with lt show "f pivot < f (xs ! i)" by simp
      qed
      with "1.IH"(1) [OF True less "1.prems"(1,2) mid(1) _ "1.prems"(5)] in_range
      have "binary_search cmp pivot xs left ?mid \<le> length xs \<and>
            (\<forall>i < binary_search cmp pivot xs left ?mid. f (xs ! i) \<le> f pivot) \<and>
            (\<forall>i. binary_search cmp pivot xs left ?mid \<le> i \<and> i < length xs \<longrightarrow>
                 f pivot < f (xs ! i))"
        by simp
      moreover from True less
      have "binary_search cmp pivot xs left right = binary_search cmp pivot xs left ?mid"
        by (simp add: unfold)
      ultimately show ?thesis by simp
    next
      case geq: False
      with cmp have le: "f (xs ! ?mid) \<le> f pivot" by simp
      have "\<forall>i < ?mid + 1. f (xs ! i) \<le> f pivot"
      proof (intro allI impI)
        fix i assume "i < ?mid + 1"
        then have "f (xs ! i) \<le> f (xs ! ?mid)" using mono [of i ?mid] in_range by simp
        with le show "f (xs ! i) \<le> f pivot" by simp
      qed
      with "1.IH"(2) [OF True geq "1.prems"(1,2) _ "1.prems"(4) _ "1.prems"(6)] mid
      have "binary_search cmp pivot xs (?mid + 1) right \<le> length xs \<and>
            (\<forall>i < binary_search cmp pivot xs (?mid + 1) right. f (xs ! i) \<le> f pivot) \<and>
            (\<forall>i. binary_search cmp pivot xs (?mid + 1) right \<le> i \<and> i < length xs \<longrightarrow>
                 f pivot < f (xs ! i))"
        by simp
      moreover from True geq
      have "binary_search cmp pivot xs left right = binary_search cmp pivot xs (?mid + 1) right"
        by (simp add: unfold)
      ultimately show ?thesis by simp
    qed
  qed
qed

lemma insert_after_place:
  assumes "r \<le> length ys" and "\<forall>i < r. f (ys ! i) \<le> f x"
    and "\<forall>i. r \<le> i \<and> i < length ys \<longrightarrow> f x < f (ys ! i)"
  shows "insert_after f x ys = take r ys @ x # drop r ys"
  using assms
proof (induction ys arbitrary: r)
  case Nil
  then show ?case by simp
next
  case (Cons y ys)
  show ?case
  proof (cases r)
    case 0
    with Cons.prems(3) have "f x < f y" by auto
    with 0 show ?thesis by simp
  next
    case (Suc r')
    with Cons.prems(2) have le: "f y \<le> f x" by auto
    from Suc Cons.prems have "r' \<le> length ys" "\<forall>i < r'. f (ys ! i) \<le> f x"
      "\<forall>i. r' \<le> i \<and> i < length ys \<longrightarrow> f x < f (ys ! i)"
      by auto
    from Cons.IH [OF this] le Suc show ?thesis by simp
  qed
qed

lemma BinaryInsertionSort_stable:
  assumes "sorted (map f pre)" and "compares_by cmp f (pre @ rest)"
  shows "BinaryInsertionSort cmp pre rest = foldl (\<lambda>ys x. insert_after f x ys) pre rest"
  using assms
proof (induction rest arbitrary: pre)
  case Nil
  show ?case by simp
next
  case (Cons pivot rest)
  let ?left = "binary_search cmp pivot pre 0 (length pre)"
  from Cons.prems(2) have "\<forall>y \<in> set pre. cmp pivot y = int (f pivot) - int (f y)"
    by (simp add: compares_by_def)
  with binary_search_place [of f pre cmp pivot 0 "length pre"] Cons.prems(1)
  have "?left \<le> length pre" "\<forall>i < ?left. f (pre ! i) \<le> f pivot"
    "\<forall>i. ?left \<le> i \<and> i < length pre \<longrightarrow> f pivot < f (pre ! i)"
    by simp_all
  from insert_after_place [OF this]
  have place: "take ?left pre @ pivot # drop ?left pre = insert_after f pivot pre" by simp
  from Cons.prems(2) have "compares_by cmp f (insert_after f pivot pre @ rest)"
    by (auto simp: compares_by_def set_insert_after)
  from Cons.IH [OF sorted_insert_after [OF Cons.prems(1)] this] place
  show ?case by simp
qed

lemma run_continues_le: "run_continues cmp d prev rest \<le> length rest"
  by (induction rest arbitrary: prev) auto

lemma run_ascending:
  assumes "compares_by cmp f (prev # rest)"
  shows "sorted (map f (prev # take (run_continues cmp False prev rest) rest))"
  using assms
proof (induction rest arbitrary: prev)
  case Nil
  show ?case by simp
next
  case (Cons cur rest)
  from Cons.prems have cmp: "cmp cur prev = int (f cur) - int (f prev)"
    and rest: "compares_by cmp f (cur # rest)"
    by (auto simp: compares_by_def)
  show ?case
  proof (cases "cmp cur prev < 0")
    case True
    then show ?thesis by simp
  next
    case False
    with cmp have "f prev \<le> f cur" by simp
    with Cons.IH [OF rest] False show ?thesis by auto
  qed
qed

lemma run_descending:
  assumes "compares_by cmp f (prev # rest)"
  shows "sorted_wrt (\<lambda>a b. f b < f a) (prev # take (run_continues cmp True prev rest) rest)"
  using assms
proof (induction rest arbitrary: prev)
  case Nil
  show ?case by simp
next
  case (Cons cur rest)
  from Cons.prems have cmp: "cmp cur prev = int (f cur) - int (f prev)"
    and rest: "compares_by cmp f (cur # rest)"
    by (auto simp: compares_by_def)
  show ?case
  proof (cases "cmp cur prev \<ge> 0")
    case True
    then show ?thesis by simp
  next
    case False
    with cmp have lt: "f cur < f prev" by simp
    from Cons.IH [OF rest]
    have run: "sorted_wrt (\<lambda>a b. f b < f a) (cur # take (run_continues cmp True cur rest) rest)" .
    then have "\<forall>y \<in> set (take (run_continues cmp True cur rest) rest). f y < f cur" by simp
    with lt have "\<forall>y \<in> set (cur # take (run_continues cmp True cur rest) rest). f y < f prev"
      by auto
    with run False show ?thesis by simp
  qed
qed

lemma stable_sort_ascending:
  "sorted (map f (ys @ xs)) \<Longrightarrow> foldl (\<lambda>ys x. insert_after f x ys) ys xs = ys @ xs"
proof (induction xs arbitrary: ys)
  case Nil
  show ?case by simp
next
  case (Cons x xs)
  from Cons.prems have "\<forall>y \<in> set ys. f y \<le> f x" by (auto simp: sorted_append)
  then have "insert_after f x ys = ys @ [x]" by (rule insert_after_all_le)
  with Cons.IH [of "ys @ [x]"] Cons.prems show ?case by simp
qed

lemma stable_sort_descending:
  assumes "sorted_wrt (\<lambda>a b. f b < f a) xs" and "\<forall>x \<in> set xs. \<forall>y \<in> set ys. f x < f y"
  shows "foldl (\<lambda>ys x. insert_after f x ys) ys xs = rev xs @ ys"
  using assms
proof (induction xs arbitrary: ys)
  case Nil
  show ?case by simp
next
  case (Cons x xs)
  from Cons.prems(2) have "insert_after f x ys = x # ys" by (intro insert_after_all_gt) simp
  moreover from Cons.prems have "\<forall>x' \<in> set xs. \<forall>y \<in> set (x # ys). f x' < f y" by auto
  moreover from Cons.prems(1) have "sorted_wrt (\<lambda>a b. f b < f a) xs" by simp
  ultimately show ?case using Cons.IH [of "x # ys"] by simp
qed

lemma CountAndMakeRun_stable:
  assumes "compares_by cmp f xs" and "2 \<le> length xs"
  shows "snd (CountAndMakeRun cmp xs) \<le> length xs \<and>
         take (snd (CountAndMakeRun cmp xs)) (fst (CountAndMakeRun cmp xs)) =
           stable_sort f (take (snd (CountAndMakeRun cmp xs)) xs) \<and>
         drop (snd (CountAndMakeRun cmp xs)) (fst (CountAndMakeRun cmp xs)) =
           drop (snd (CountAndMakeRun cmp xs)) xs"
proof -
  from assms(2) obtain a b rest where xs: "xs = a # b # rest"
    by (cases xs; cases "tl xs") auto
  from assms(1) xs have cmp: "cmp b a = int (f b) - int (f a)"
    and tail: "compares_by cmp f (b # rest)"
    by (auto simp: compares_by_def)
  show ?thesis
  proof (cases "cmp b a < 0")
    case True
    let ?k = "run_continues cmp True b rest"
    from True cmp have lt: "f b < f a" by simp
    have k: "?k \<le> length rest" by (rule run_continues_le)
    from run_descending [OF tail]
    have run: "sorted_wrt (\<lambda>a b. f b < f a) (b # take ?k rest)" .
    with lt have "sorted_wrt (\<lambda>a b. f b < f a) (a # b # take ?k rest)" by auto
    from stable_sort_descending [OF this, of "[]"]
    have "stable_sort f (a # b # take ?k rest) = rev (a # b # take ?k rest)"
      by (simp add: stable_sort_def)
    with True k show ?thesis by (simp add: xs)
  next
    case False
    let ?k = "run_continues cmp False b rest"
    from False cmp have le: "f a \<le> f b" by simp
    have k: "?k \<le> length rest" by (rule run_continues_le)
    from run_ascending [OF tail] le
    have "sorted (map f ([] @ a # b # take ?k rest))" by auto
    from stable_sort_ascending [OF this]
    have "stable_sort f (a # b # take ?k rest) = a # b # take ?k rest"
      by (simp add: stable_sort_def)
    with False k show ?thesis by (simp add: xs)
  qed
qed

lemma Array_sort_V8_stable:
  assumes "compares_by cmp f xs"
  shows "Array_sort_V8 cmp xs = stable_sort f xs"
proof (cases "length xs < 2")
  case True
  then have "xs = [] \<or> (\<exists>x. xs = [x])" by (cases xs; cases "tl xs") auto
  with True show ?thesis by (auto simp: Array_sort_V8_def stable_sort_def)
next
  case False
  let ?n = "snd (CountAndMakeRun cmp xs)" and ?ys = "fst (CountAndMakeRun cmp xs)"
  from False have "2 \<le> length xs" by simp
  from CountAndMakeRun_stable [OF assms this]
  have n: "?n \<le> length xs" and run: "take ?n ?ys = stable_sort f (take ?n xs)"
    and rest: "drop ?n ?ys = drop ?n xs"
    by simp_all
  have sorted: "sorted (map f (stable_sort f (take ?n xs)))"
    unfolding stable_sort_def by (rule sorted_foldl_insert_after) simp
  have "set (stable_sort f (take ?n xs)) = set (take ?n xs)"
    using set_foldl_insert_after [of f "[]" "take ?n xs"] by (simp add: stable_sort_def)
  then have "set (stable_sort f (take ?n xs) @ drop ?n xs) = set (take ?n xs @ drop ?n xs)"
    by (simp only: set_append)
  then have "set (stable_sort f (take ?n xs) @ drop ?n xs) = set xs"
    by (simp only: append_take_drop_id)
  with assms have "compares_by cmp f (stable_sort f (take ?n xs) @ drop ?n xs)"
    by (simp add: compares_by_def)
  from BinaryInsertionSort_stable [OF sorted this]
  have "BinaryInsertionSort cmp (stable_sort f (take ?n xs)) (drop ?n xs) =
          foldl (\<lambda>ys x. insert_after f x ys) (stable_sort f (take ?n xs)) (drop ?n xs)" .
  also have "\<dots> = foldl (\<lambda>ys x. insert_after f x ys) [] (take ?n xs @ drop ?n xs)"
    by (simp only: stable_sort_def foldl_append)
  also have "\<dots> = stable_sort f xs"
    by (simp only: append_take_drop_id stable_sort_def)
  finally show ?thesis using False run rest by (simp add: Array_sort_V8_def)
qed

text \<open>
  Among the matches of one element the comparator of \<open>postProcessMatches\<close> compares by
  \<open>startIndex\<close>, and the two sorts give the same list.
\<close>

lemma compareMatches_one_element:
  "\<forall>m \<in> set ms. ref (element m) = r \<Longrightarrow> compares_by compareMatches startIndex ms"
  by (simp add: compares_by_def compareMatches_def)

lemma sorts_agree_one_element:
  assumes "\<forall>m \<in> set ms. ref (element m) = r"
  shows "Array_sort_V8 compareMatches ms = Array_sort compareMatches ms"
  using Array_sort_V8_stable [OF compareMatches_one_element [OF assms]]
    Array_sort_stable [OF compareMatches_one_element [OF assms]]
  by simp

section \<open>The detector on the store\<close>

subsection \<open>The iterator of matchAll\<close>

lemma RegExpStringIterator_loop_matches:
  "fst (RegExpStringIterator_loop E R S acc H) =
     acc @ matches_from E (matcher_slot (regexp_at H R)) S (lastIndex (regexp_at H R))"
proof (induction E R S acc H rule: RegExpStringIterator_loop.induct)
  case (1 E R S acc H)
  let ?m = "matcher_slot (regexp_at H R)" and ?i = "lastIndex (regexp_at H R)"
  show ?case
  proof (cases "find_match E ?m S ?i")
    case None
    then show ?thesis
      by (simp add: RegExpStringIterator_loop.simps [of E R S acc H] RegExpBuiltinExec_def
            matches_from.simps [of E ?m S ?i])
  next
    case (Some ie)
    obtain index e where ie: "ie = (index, e)" by (cases ie)
    let ?H1 = "H\<lparr>regexp_at := (regexp_at H)(R := (regexp_at H R)\<lparr>lastIndex := e\<rparr>)\<rparr>"
    let ?str = "substring S index e"
    have ex: "RegExpBuiltinExec E R S H = (Some (index, ?str), ?H1)"
      using Some ie by (simp add: RegExpBuiltinExec_def)
    show ?thesis
    proof (cases "?str = []")
      case True
      from "1.IH"(1) [of "Some (index, ?str)" ?H1 "(index, ?str)" index ?str] ex True
      have "fst (RegExpStringIterator_loop E R S (acc @ [(index, ?str)])
                  (?H1\<lparr>regexp_at := (regexp_at ?H1)
                          (R := (regexp_at ?H1 R)\<lparr>lastIndex := lastIndex (regexp_at ?H1 R) + 1\<rparr>)\<rparr>)) =
            (acc @ [(index, ?str)]) @ matches_from E ?m S (e + 1)"
        by simp
      with ex True Some ie show ?thesis
        by (simp add: RegExpStringIterator_loop.simps [of E R S acc H]
              matches_from.simps [of E ?m S ?i])
    next
      case False
      from "1.IH"(2) [of "Some (index, ?str)" ?H1 "(index, ?str)" index ?str] ex False
      have "fst (RegExpStringIterator_loop E R S (acc @ [(index, ?str)]) ?H1) =
            (acc @ [(index, ?str)]) @ matches_from E ?m S e"
        by simp
      with ex False Some ie show ?thesis
        by (simp add: RegExpStringIterator_loop.simps [of E R S acc H]
              matches_from.simps [of E ?m S ?i])
    qed
  qed
qed

lemma RegExpStringIterator_loop_frame:
  "detector_at (snd (RegExpStringIterator_loop E R S acc H)) = detector_at H \<and>
   settings_at (snd (RegExpStringIterator_loop E R S acc H)) = settings_at H \<and>
   array_at (snd (RegExpStringIterator_loop E R S acc H)) = array_at H \<and>
   next_addr (snd (RegExpStringIterator_loop E R S acc H)) = next_addr H \<and>
   (\<forall>a. a \<noteq> R \<longrightarrow> regexp_at (snd (RegExpStringIterator_loop E R S acc H)) a = regexp_at H a)"
proof (induction E R S acc H rule: RegExpStringIterator_loop.induct)
  case (1 E R S acc H)
  let ?m = "matcher_slot (regexp_at H R)" and ?i = "lastIndex (regexp_at H R)"
  show ?case
  proof (cases "find_match E ?m S ?i")
    case None
    then show ?thesis
      by (simp add: RegExpStringIterator_loop.simps [of E R S acc H] RegExpBuiltinExec_def)
  next
    case (Some ie)
    obtain index e where ie: "ie = (index, e)" by (cases ie)
    let ?H1 = "H\<lparr>regexp_at := (regexp_at H)(R := (regexp_at H R)\<lparr>lastIndex := e\<rparr>)\<rparr>"
    let ?str = "substring S index e"
    have ex: "RegExpBuiltinExec E R S H = (Some (index, ?str), ?H1)"
      using Some ie by (simp add: RegExpBuiltinExec_def)
    show ?thesis
    proof (cases "?str = []")
      case True
      from "1.IH"(1) [of "Some (index, ?str)" ?H1 "(index, ?str)" index ?str] ex True
      show ?thesis
        by (simp add: RegExpStringIterator_loop.simps [of E R S acc H])
    next
      case False
      from "1.IH"(2) [of "Some (index, ?str)" ?H1 "(index, ?str)" index ?str] ex False
      show ?thesis
        by (simp add: RegExpStringIterator_loop.simps [of E R S acc H])
    qed
  qed
qed

lemma extends_refl: "extends H H"
  by (simp add: extends_def)

lemma extends_trans: "extends H H1 \<Longrightarrow> extends H1 H2 \<Longrightarrow> extends H H2"
  by (auto simp: extends_def)

lemma held_extends: "extends H H' \<Longrightarrow> held H' this = held H this"
  by (simp add: extends_def held_def settings_value_def)

lemma String_matchAll_matches:
  assumes "regexp < next_addr H"
  shows "fst (String_matchAll E S regexp H) =
           matches_from E (matcher_slot (regexp_at H regexp)) S (lastIndex (regexp_at H regexp))"
  using assms by (simp add: String_matchAll_def Let_def RegExpStringIterator_loop_matches)

lemma String_matchAll_extends: "extends H (snd (String_matchAll E S regexp H))"
proof -
  let ?matcher = "next_addr H"
  let ?H1 = "H\<lparr>regexp_at := (regexp_at H)
                 (?matcher := \<lparr>matcher_slot = matcher_slot (regexp_at H regexp), lastIndex = 0\<rparr>),
               next_addr := Suc ?matcher\<rparr>"
  let ?H2 = "?H1\<lparr>regexp_at := (regexp_at ?H1)
                 (?matcher := (regexp_at ?H1 ?matcher)\<lparr>lastIndex := lastIndex (regexp_at ?H1 regexp)\<rparr>)\<rparr>"
  have eq: "String_matchAll E S regexp H = RegExpStringIterator_loop E ?matcher S [] ?H2"
    by (simp add: String_matchAll_def Let_def)
  from RegExpStringIterator_loop_frame [of E ?matcher S "[]" ?H2]
  show ?thesis unfolding eq by (simp add: extends_def)
qed

lemma new_RegExp_Inl:
  assumes "new_RegExp E source H = (Inl e, H1)"
  shows "parse_pattern E source = None \<and> e = SyntaxError \<and> H1 = H"
  using assms by (auto simp: new_RegExp_def split: option.splits)

lemma new_RegExp_Inr:
  assumes "new_RegExp E source H = (Inr R, H1)"
  shows "parse_pattern E source = Some (matcher_slot (regexp_at H1 R)) \<and>
         lastIndex (regexp_at H1 R) = 0 \<and> R < next_addr H1 \<and> extends H H1"
  using assms by (auto simp: new_RegExp_def extends_def split: option.splits)

lemma shouldIncludeMatch_heap_held:
  "shouldIncludeMatch_heap H this mt p context = shouldIncludeMatch (held H this) mt p context"
  by (simp add: shouldIncludeMatch_heap_def shouldIncludeMatch_def held_def settings_value_def)

lemma getMaskingType_heap_held: "getMaskingType_heap H this ty = getMaskingType (held H this) ty"
  by (simp add: getMaskingType_heap_def getMaskingType_def held_def settings_value_def)

lemma pattern_matches_heap_held:
  "pattern_matches_heap H this p context ms = pattern_matches (held H this) p context ms"
  by (simp add: pattern_matches_heap_def pattern_matches_def shouldIncludeMatch_heap_held
        getMaskingType_heap_held)

subsection \<open>detectInText and detectPII\<close>

text \<open>
  The loop over the pattern array on the store gives what the loop over the patterns by
  value gives at what the detector holds, and only allocates.
\<close>

lemma detectInText_loop_heap_held:
  "fst (detectInText_loop_heap E this context ps len k matches H) =
     detectInText_loop (host_of E) (held H this) context
       (drop k (take len (array_at H ps))) matches \<and>
   extends H (snd (detectInText_loop_heap E this context ps len k matches H))"
proof (induction E "this" "context" ps len k matches H rule: detectInText_loop_heap.induct)
  case (1 E d ctx ps len k matches H)
  note unfold = detectInText_loop_heap.simps [of E d ctx ps len k matches H]
  show ?case
  proof (cases "k \<ge> len")
    case True
    then show ?thesis by (simp add: unfold extends_refl)
  next
    case False
    show ?thesis
    proof (cases "k \<ge> length (array_at H ps)")
      case True
      with "1.IH"(1) False show ?thesis by (simp add: unfold)
    next
      case inside: False
      let ?p = "array_at H ps ! k"
      from False inside
      have drop: "drop k (take len (array_at H ps)) = ?p # drop (k + 1) (take len (array_at H ps))"
        by (simp add: Cons_nth_drop_Suc [symmetric])
      show ?thesis
      proof (cases "enabled ?p")
        case disabled: False
        from "1.IH"(2) False inside disabled
        show ?thesis by (simp add: unfold drop)
      next
        case enabled: True
        show ?thesis
        proof (cases "new_RegExp E (pattern ?p) H")
          case (Pair res H1)
          show ?thesis
          proof (cases res)
            case (Inl e)
            with Pair new_RegExp_Inl [of E "pattern ?p" H e H1] False inside enabled
            show ?thesis by (simp add: unfold drop host_of_def extends_refl)
          next
            case (Inr R)
            from new_RegExp_Inr [of E "pattern ?p" H R H1] Pair Inr
            have parse: "parse_pattern E (pattern ?p) = Some (matcher_slot (regexp_at H1 R))"
              and zero: "lastIndex (regexp_at H1 R) = 0" and R: "R < next_addr H1"
              and ext1: "extends H H1"
              by simp_all
            obtain regexMatches H2
              where ma: "String_matchAll E (ctx_textContent ctx) R H1 = (regexMatches, H2)"
              by (cases "String_matchAll E (ctx_textContent ctx) R H1")
            from String_matchAll_matches [OF R, of E "ctx_textContent ctx"] ma zero
            have ms: "regexMatches =
                        matches_from E (matcher_slot (regexp_at H1 R)) (ctx_textContent ctx) 0"
              by simp
            from String_matchAll_extends [of H1 E "ctx_textContent ctx" R] ma
            have ext2: "extends H1 H2" by simp
            from ext1 ext2 have ext: "extends H H2" by (rule extends_trans)
            then have same: "array_at H2 = array_at H" by (simp add: extends_def)
            let ?matches = "matches @ pattern_matches_heap H2 d ?p ctx regexMatches"
            from "1.IH"(3) [of "Inr R" H1 R regexMatches H2]
              False inside enabled Pair Inr ma
            have IH: "fst (detectInText_loop_heap E d ctx ps len (k + 1) ?matches H2) =
                        detectInText_loop (host_of E) (held H2 d) ctx
                          (drop (k + 1) (take len (array_at H2 ps))) ?matches"
              and IH_ext: "extends H2 (snd (detectInText_loop_heap E d ctx ps len (k + 1) ?matches H2))"
              by simp_all
            from ext IH_ext
            have ext': "extends H (snd (detectInText_loop_heap E d ctx ps len (k + 1) ?matches H2))"
              by (rule extends_trans)
            have step: "detectInText_loop_heap E d ctx ps len k matches H =
                          detectInText_loop_heap E d ctx ps len (k + 1) ?matches H2"
              using False inside enabled Pair Inr ma by (simp add: unfold)
            have pure: "detectInText_loop (host_of E) (held H d) ctx
                          (drop k (take len (array_at H ps))) matches =
                        detectInText_loop (host_of E) (held H d) ctx
                          (drop (k + 1) (take len (array_at H ps)))
                          (matches @ pattern_matches (held H d) ?p ctx regexMatches)"
              using enabled parse ms by (simp add: drop host_of_def)
            from IH ext' show ?thesis
              unfolding step pure
              by (simp add: same held_extends [OF ext] pattern_matches_heap_held)
          qed
        qed
      qed
    qed
  qed
qed

lemma detectInText_heap_held:
  "fst (detectInText_heap E this context H) = detectInText (host_of E) (held H this) context \<and>
   extends H (snd (detectInText_heap E this context H))"
  using detectInText_loop_heap_held
    [of E "this" "context" "patterns_field (detector_at H this)"
        "length (array_at H (patterns_field (detector_at H this)))" 0 "[]" H]
  by (simp add: detectInText_heap_def detectInText_def Let_def held_def)

lemma detectPII_loop_heap_held:
  "fst (detectPII_loop_heap E this textNodes matches H) =
     detectPII_loop (host_of E) (held H this) textNodes matches \<and>
   extends H (snd (detectPII_loop_heap E this textNodes matches H))"
proof (induction textNodes arbitrary: matches H)
  case Nil
  show ?case by (simp add: extends_refl)
next
  case (Cons n ns)
  show ?case
  proof (cases "parentElement n")
    case None
    with Cons.IH show ?thesis by simp
  next
    case (Some el)
    let ?txt = "or_else (textContent n) []"
    show ?thesis
    proof (cases "trim_is_empty ?txt")
      case True
      with Some Cons.IH show ?thesis by (simp add: Let_def)
    next
      case False
      obtain res H1 where d: "detectInText_heap E this (buildDetectionContext el ?txt) H = (res, H1)"
        by (cases "detectInText_heap E this (buildDetectionContext el ?txt) H")
      from detectInText_heap_held [of E "this" "buildDetectionContext el ?txt" H] d
      have res: "detectInText (host_of E) (held H this) (buildDetectionContext el ?txt) = res"
        and ext: "extends H H1" by simp_all
      show ?thesis
      proof (cases res)
        case (Inl e)
        with Some False d res ext show ?thesis by (simp add: Let_def)
      next
        case (Inr nodeMatches)
        from Cons.IH [of "matches @ nodeMatches" H1] held_extends [OF ext, of "this"]
        have "fst (detectPII_loop_heap E this ns (matches @ nodeMatches) H1) =
                detectPII_loop (host_of E) (held H this) ns (matches @ nodeMatches)"
          and "extends H (snd (detectPII_loop_heap E this ns (matches @ nodeMatches) H1))"
          using ext by (auto intro: extends_trans)
        with Some False d res Inr show ?thesis by (simp add: Let_def)
      qed
    qed
  qed
qed

text \<open>
  \<open>detectPII\<close> on the store returns what \<open>detectPII\<close> by value returns at what the
  detector holds when the call starts, and leaves every object that was in the store as
  it was.
\<close>

lemma detectPII_heap_held:
  "fst (detectPII_heap E this textNodes H) = detectPII (host_of E) (held H this) textNodes \<and>
   extends H (snd (detectPII_heap E this textNodes H))"
  using detectPII_loop_heap_held [of E "this" textNodes "[]" H]
  by (cases "detectPII_loop_heap E this textNodes [] H")
     (auto simp: detectPII_heap_def detectPII_def split: sum.splits)

lemma run_calls_detects:
  assumes "\<forall>c \<in> set cs. \<exists>ns. c = DetectPII ns"
  shows "extends H (snd (run_calls E this cs H))"
  using assms
proof (induction cs arbitrary: H)
  case Nil
  show ?case by (simp add: extends_refl)
next
  case (Cons c cs)
  then obtain ns where c: "c = DetectPII ns" by auto
  obtain out H1 where d: "detectPII_heap E this ns H = (out, H1)"
    by (cases "detectPII_heap E this ns H")
  from detectPII_heap_held [of E "this" ns H] d have "extends H H1" by simp
  moreover from Cons have "extends H1 (snd (run_calls E this cs H1))" by simp
  ultimately have "extends H (snd (run_calls E this cs H1))" by (rule extends_trans)
  with c d show ?case by (auto split: prod.splits)
qed

text \<open>
  C10. The result of \<open>detectPII\<close> depends on the store only through what the detector
  holds in it: two stores in which the detector's references lead to the same settings
  and the same patterns give the same result for the same text nodes, whatever else the
  stores hold, the \<open>RegExp\<close> objects of earlier calls and their \<open>lastIndex\<close> included. And
  \<open>detectPII\<close> leaves what the detector holds as it was, so a call, any number of
  \<open>detectPII\<close> calls after it, and the first call again give the first result again.
\<close>

theorem detectPII_repeatable:
  "(held H this = held H' this \<longrightarrow>
      fst (detectPII_heap E this textNodes H) = fst (detectPII_heap E this textNodes H')) \<and>
   ((\<forall>c \<in> set between. \<exists>ns. c = DetectPII ns) \<longrightarrow>
      (case detectPII_heap E this textNodes H of
         (out1, H1) \<Rightarrow>
           (case run_calls E this between H1 of
              (outs, H2) \<Rightarrow>
                (case detectPII_heap E this textNodes H2 of
                   (out2, H3) \<Rightarrow> out2 = out1 \<and> held H3 this = held H this))))"
proof (intro conjI impI)
  assume "held H this = held H' this"
  then show "fst (detectPII_heap E this textNodes H) = fst (detectPII_heap E this textNodes H')"
    by (simp add: detectPII_heap_held)
next
  assume between: "\<forall>c \<in> set between. \<exists>ns. c = DetectPII ns"
  obtain out1 H1 where d1: "detectPII_heap E this textNodes H = (out1, H1)"
    by (cases "detectPII_heap E this textNodes H")
  obtain outs H2 where r: "run_calls E this between H1 = (outs, H2)"
    by (cases "run_calls E this between H1")
  obtain out2 H3 where d2: "detectPII_heap E this textNodes H2 = (out2, H3)"
    by (cases "detectPII_heap E this textNodes H2")
  from detectPII_heap_held [of E "this" textNodes H] d1
  have out1: "out1 = detectPII (host_of E) (held H this) textNodes" and e1: "extends H H1"
    by simp_all
  from run_calls_detects [OF between, of H1 E "this"] r have e2: "extends H1 H2" by simp
  from detectPII_heap_held [of E "this" textNodes H2] d2
  have out2: "out2 = detectPII (host_of E) (held H2 this) textNodes" and e3: "extends H2 H3"
    by simp_all
  from e1 e2 have "held H2 this = held H this"
    by (simp add: held_extends)
  moreover from e1 e2 e3 have "held H3 this = held H this"
    by (simp add: held_extends)
  ultimately show "case detectPII_heap E this textNodes H of
         (out1, H1) \<Rightarrow>
           (case run_calls E this between H1 of
              (outs, H2) \<Rightarrow>
                (case detectPII_heap E this textNodes H2 of
                   (out2, H3) \<Rightarrow> out2 = out1 \<and> held H3 this = held H this))"
    using d1 r d2 out1 out2 by simp
qed

section \<open>The matcher as an engine\<close>

text \<open>
  The iterator of \<open>matchAll\<close> written over the objects of the store, run with the
  matcher of this theory, gives the matches of \<open>regex_matchAll\<close>: the detector on the
  store with \<open>ecma_engine\<close> returns what the detector by value returns with \<open>ecma_host\<close>.
\<close>

lemma within_step:
  assumes "within S (MState e p (ch # r))"
  shows "within S (MState (e + 1) (Some ch) r)"
proof -
  from assms have d: "drop e S = ch # r" and e: "e \<le> length S"
    by (simp_all add: within_def state_at_def)
  from d have lt: "e < length S" by (cases "e < length S") simp_all
  from d lt have "S ! e = ch" "drop (Suc e) S = r"
    by (simp_all add: Cons_nth_drop_Suc [symmetric])
  with lt show ?thesis by (simp add: within_def state_at_def unit_before_def)
qed

lemma keepsD: "keeps S m \<Longrightarrow> within S x \<Longrightarrow> m x c = Some z \<Longrightarrow> \<exists>y. within S y \<and> c y = Some z"
  unfolding keeps_def by blast

lemma RepeatMatcher_keeps:
  assumes "keeps S m"
  shows "keeps S (RepeatMatcher b m mn mx greedy)"
proof -
  have "\<exists>y. within S y \<and> c y = Some z"
    if "RepeatMatcher b m mn mx greedy x c = Some z" and "within S x" for x c z
    using that
  proof (induction b arbitrary: x mn mx)
    case 0
    then show ?case by (cases x) (simp add: RepeatMatcher.simps)
  next
    case (Suc b)
    obtain e p r where x: "x = MState e p r" by (cases x)
    let ?mx = "map_option (\<lambda>k. k - 1) mx"
    from Suc.prems(1) consider
        (here) "c x = Some z"
      | (more) "m x (\<lambda>y. RepeatMatcher b m (mn - 1) ?mx greedy y c) = Some z"
      | (more0) "m x (\<lambda>y. if endIndex_of y = e then None
                           else RepeatMatcher b m 0 ?mx greedy y c) = Some z"
      unfolding x RepeatMatcher_Suc by (auto split: if_splits option.splits)
    then show ?case
    proof cases
      case here
      with Suc.prems(2) show ?thesis by blast
    next
      case more
      from keepsD [OF assms Suc.prems(2) more] obtain y where y: "within S y"
        and "RepeatMatcher b m (mn - 1) ?mx greedy y c = Some z" by blast
      from Suc.IH [OF this(2) y] show ?thesis .
    next
      case more0
      from keepsD [OF assms Suc.prems(2) more0] obtain y where y: "within S y"
        and "RepeatMatcher b m 0 ?mx greedy y c = Some z"
        by (auto split: if_splits)
      from Suc.IH [OF this(2) y] show ?thesis .
    qed
  qed
  then show ?thesis unfolding keeps_def by blast
qed

lemma matcher_keeps: "keeps S (matcher re)"
proof (induction re)
  case Empty
  show ?case unfolding keeps_def
  proof (intro allI impI)
    fix x :: mstate and c :: continuation and z
    assume "within S x" and "matcher Empty x c = Some z"
    then have "c x = Some z" by (cases x) simp
    with \<open>within S x\<close> show "\<exists>y. within S y \<and> c y = Some z" by blast
  qed
next
  case (Chars cs)
  show ?case unfolding keeps_def
  proof (intro allI impI)
    fix x :: mstate and c :: continuation and z
    assume w: "within S x" and run: "matcher (Chars cs) x c = Some z"
    obtain e p r where x: "x = MState e p r" by (cases x)
    from run x obtain ch r' where r: "r = ch # r'" and "c (MState (e + 1) (Some ch) r') = Some z"
      by (cases r) (auto split: if_splits)
    moreover from w x r have "within S (MState (e + 1) (Some ch) r')"
      using within_step by blast
    ultimately show "\<exists>y. within S y \<and> c y = Some z" by blast
  qed
next
  case (Seq a b)
  show ?case unfolding keeps_def
  proof (intro allI impI)
    fix x :: mstate and c :: continuation and z
    assume w: "within S x" and "matcher (Seq a b) x c = Some z"
    then have "matcher a x (\<lambda>y. matcher b y c) = Some z" by (cases x) simp
    from keepsD [OF Seq.IH(1) w this] obtain y where y: "within S y" "matcher b y c = Some z"
      by blast
    from keepsD [OF Seq.IH(2) y] show "\<exists>y. within S y \<and> c y = Some z" .
  qed
next
  case (Alt a b)
  show ?case unfolding keeps_def
  proof (intro allI impI)
    fix x :: mstate and c :: continuation and z
    assume w: "within S x" and "matcher (Alt a b) x c = Some z"
    then have "matcher a x c = Some z \<or> matcher b x c = Some z"
      by (cases x) (auto split: option.splits)
    then show "\<exists>y. within S y \<and> c y = Some z"
      using keepsD [OF Alt.IH(1) w] keepsD [OF Alt.IH(2) w] by blast
  qed
next
  case (Repeat a mn mx greedy)
  show ?case unfolding keeps_def
  proof (intro allI impI)
    fix x :: mstate and c :: continuation and z
    assume w: "within S x" and run: "matcher (Repeat a mn mx greedy) x c = Some z"
    obtain e p r where x: "x = MState e p r" by (cases x)
    from run have "RepeatMatcher (Suc (mn + length r)) (matcher a) mn mx greedy x c = Some z"
      unfolding x by simp
    from keepsD [OF RepeatMatcher_keeps [OF Repeat.IH] w this]
    show "\<exists>y. within S y \<and> c y = Some z" .
  qed
next
  case AssertStart
  show ?case unfolding keeps_def
  proof (intro allI impI)
    fix x :: mstate and c :: continuation and z
    assume w: "within S x" and "matcher AssertStart x c = Some z"
    then have "c x = Some z" by (cases x) (auto split: if_splits)
    with w show "\<exists>y. within S y \<and> c y = Some z" by blast
  qed
next
  case AssertEnd
  show ?case unfolding keeps_def
  proof (intro allI impI)
    fix x :: mstate and c :: continuation and z
    assume w: "within S x" and "matcher AssertEnd x c = Some z"
    then have "c x = Some z" by (cases x) (auto split: if_splits)
    with w show "\<exists>y. within S y \<and> c y = Some z" by blast
  qed
next
  case (WordBoundary invert)
  show ?case unfolding keeps_def
  proof (intro allI impI)
    fix x :: mstate and c :: continuation and z
    assume w: "within S x" and "matcher (WordBoundary invert) x c = Some z"
    then have "c x = Some z" by (cases x) (auto split: if_splits)
    with w show "\<exists>y. within S y \<and> c y = Some z" by blast
  qed
next
  case (Lookahead invert a)
  show ?case unfolding keeps_def
  proof (intro allI impI)
    fix x :: mstate and c :: continuation and z
    assume w: "within S x" and "matcher (Lookahead invert a) x c = Some z"
    then have "c x = Some z" by (cases x) (auto split: if_splits option.splits)
    with w show "\<exists>y. within S y \<and> c y = Some z" by blast
  qed
qed

lemma within_state_at: "i \<le> length S \<Longrightarrow> within S (state_at S i)"
  by (simp add: within_def state_at_def)

lemma matcher_within:
  assumes "i \<le> length S" and "matcher re (state_at S i) Some = Some y"
  shows "within S y \<and> i \<le> endIndex_of y"
proof -
  from keepsD [OF matcher_keeps within_state_at [OF assms(1)] assms(2)]
  have "within S y" by simp
  moreover from matcher_Some_ahead [OF assms(2)] have "i \<le> endIndex_of y"
    by (auto simp: ahead_def state_at_def)
  ultimately show ?thesis ..
qed

text \<open>The search of RegExpBuiltinExec, in the two forms.\<close>

lemma find_match_past: "length S < i \<Longrightarrow> find_match E m S i = None"
  by (simp add: find_match.simps [of E m S i])

lemma find_match_ecma:
  "find_match ecma_engine re S i =
     (if i > length S then None
      else (case matcher re (state_at S i) Some of
              None \<Rightarrow> find_match ecma_engine re S (i + 1)
            | Some y \<Rightarrow> Some (i, i + (endIndex_of y - i))))"
  by (subst find_match.simps) (simp add: ecma_engine_def regex_match_at_def split: option.splits)

lemma regex_exec_find_match:
  assumes "i \<le> length S"
  shows "(case find_match ecma_engine re S i of
            None \<Rightarrow>
              regex_exec re i (unit_before S i) (drop i S) = None
          | Some (start, e) \<Rightarrow>
              start \<le> length S \<and> start \<le> e \<and> e \<le> length S \<and>
              regex_exec re i (unit_before S i) (drop i S) =
                Some (start, drop start S, state_at S e))"
  using assms
proof (induction "length S - i" arbitrary: i)
  case 0
  then have i: "i = length S" by simp
  have st: "state_at S i = MState i (unit_before S i) []"
    by (simp add: state_at_def i)
  show ?case
  proof (cases "matcher re (state_at S i) Some")
    case None
    then have "find_match ecma_engine re S (length S) = None"
      by (simp add: find_match_ecma [of re S "length S"] find_match_past i)
    with None st i show ?thesis by simp
  next
    case (Some y)
    from matcher_within [OF "0.prems" Some] have y: "within S y" "i \<le> endIndex_of y" by simp_all
    then have e: "endIndex_of y = i" by (simp add: within_def i)
    from Some y e have "find_match ecma_engine re S (length S) = Some (length S, length S)"
      by (simp add: find_match_ecma [of re S "length S"] i)
    moreover from y have "y = state_at S (endIndex_of y)" by (simp add: within_def)
    ultimately show ?thesis using Some st e i by simp
  qed
next
  case (Suc n)
  then have lt: "i < length S" by simp
  then obtain ch r where d: "drop i S = ch # r"
    by (cases "drop i S") simp_all
  from d lt have ch: "S ! i = ch" and r: "drop (Suc i) S = r"
    by (simp_all add: Cons_nth_drop_Suc [symmetric])
  have st: "state_at S i = MState i (unit_before S i) (ch # r)"
    by (simp add: state_at_def d)
  show ?case
  proof (cases "matcher re (state_at S i) Some")
    case None
    from Suc.hyps(2) lt have n: "n = length S - Suc i" by simp
    have "unit_before S (Suc i) = Some ch" using ch by (simp add: unit_before_def)
    with Suc.hyps(1) [OF n] lt r
    have IH: "(case find_match ecma_engine re S (Suc i) of
                 None \<Rightarrow> regex_exec re (i + 1) (Some ch) r = None
               | Some (start, e) \<Rightarrow>
                   start \<le> length S \<and> start \<le> e \<and> e \<le> length S \<and>
                   regex_exec re (i + 1) (Some ch) r = Some (start, drop start S, state_at S e))"
      by (auto split: option.splits)
    from None lt have fm: "find_match ecma_engine re S i = find_match ecma_engine re S (Suc i)"
      by (simp add: find_match_ecma [of re S i])
    from None st have "regex_exec re i (unit_before S i) (ch # r) =
                       regex_exec re (i + 1) (Some ch) r"
      by simp
    with IH fm d show ?thesis by (auto split: option.splits)
  next
    case (Some y)
    from matcher_within [OF Suc.prems Some] have y: "within S y" "i \<le> endIndex_of y" by simp_all
    from Some y lt have "find_match ecma_engine re S i = Some (i, endIndex_of y)"
      by (simp add: find_match_ecma [of re S i])
    moreover from y have "y = state_at S (endIndex_of y)" "endIndex_of y \<le> length S"
      by (simp_all add: within_def)
    ultimately show ?thesis using Some st d lt y(2) by simp
  qed
qed

lemma find_match_bounds:
  "find_match E m S i = Some (index, e) \<Longrightarrow> i \<le> index \<and> index \<le> length S \<and> index \<le> e"
proof (induction E m S i rule: find_match.induct)
  case (1 E m S i)
  show ?case
  proof (cases "RegExpMatcher E m S i")
    case None
    with "1.prems" have "i \<le> length S" and "find_match E m S (i + 1) = Some (index, e)"
      by (auto simp: find_match.simps [of E m S i] split: if_splits)
    with "1.IH" None show ?thesis by fastforce
  next
    case (Some n)
    with "1.prems" show ?thesis
      by (auto simp: find_match.simps [of E m S i] split: if_splits)
  qed
qed

lemma matches_from_past: "length S < i \<Longrightarrow> matches_from E m S i = []"
  by (simp add: matches_from.simps [of E m S i] find_match_past)

lemma matches_from_matchAll_loop:
  assumes "i \<le> length S" and "length S - i < b"
  shows "matches_from ecma_engine re S i = matchAll_loop b re (state_at S i)"
  using assms
proof (induction b arbitrary: i)
  case 0
  then show ?case by simp
next
  case (Suc b)
  note exec = regex_exec_find_match [OF Suc.prems(1), of re]
  note loop = matchAll_loop_unfold [of b re i "unit_before S i" "drop i S"]
  note unroll = matches_from.simps [of ecma_engine re S i]
  show ?case
  proof (cases "find_match ecma_engine re S i")
    case None
    with exec show ?thesis by (simp add: state_at_def loop unroll)
  next
    case (Some ie)
    obtain start e where ie: "ie = (start, e)" by (cases ie)
    from exec Some ie have start: "start \<le> length S" "start \<le> e" "e \<le> length S"
      and ex: "regex_exec re i (unit_before S i) (drop i S) =
                 Some (start, drop start S, MState e (unit_before S e) (drop e S))"
      by (simp_all add: state_at_def)
    from find_match_bounds [of ecma_engine re S i start e] Some ie have i: "i \<le> start" by simp
    show ?thesis
    proof (cases "e = start")
      case True
      then have empty: "substring S start e = []" by (simp add: substring_def)
      show ?thesis
      proof (cases "drop e S")
        case Nil
        then have "length S < e + 1" by simp
        then have "matches_from ecma_engine re S (e + 1) = []"
          by (rule matches_from_past)
        with Nil True empty Some ie ex show ?thesis
          by (simp add: state_at_def loop unroll)
      next
        case (Cons ch r)
        then have lt: "e < length S" by (cases "e < length S") simp_all
        from Cons lt have "S ! e = ch" "drop (Suc e) S = r"
          by (simp_all add: Cons_nth_drop_Suc [symmetric])
        then have st: "state_at S (e + 1) = MState (e + 1) (Some ch) r"
          by (simp add: state_at_def unit_before_def)
        from lt i True Suc.prems(2) have "e + 1 \<le> length S" "length S - (e + 1) < b" by simp_all
        from Suc.IH [OF this] st
        have "matches_from ecma_engine re S (e + 1) = matchAll_loop b re (MState (e + 1) (Some ch) r)"
          by simp
        with Cons True empty Some ie ex show ?thesis
          by (simp add: state_at_def loop unroll)
      qed
    next
      case False
      with start have lt: "start < e" "start < length S" by simp_all
      then have nonempty: "substring S start e \<noteq> []" by (simp add: substring_def)
      from lt i start Suc.prems(2) have "e \<le> length S" "length S - e < b" by simp_all
      from Suc.IH [OF this]
      have "matches_from ecma_engine re S e =
              matchAll_loop b re (MState e (unit_before S e) (drop e S))"
        by (simp add: state_at_def)
      with False nonempty Some ie ex show ?thesis
        by (simp add: state_at_def loop unroll substring_def)
    qed
  qed
qed

lemma matches_from_regex_matchAll: "matches_from ecma_engine re S 0 = regex_matchAll re S"
  using matches_from_matchAll_loop [of 0 S "Suc (length S)" re]
  by (simp add: regex_matchAll_def state_at_def unit_before_def)

lemma host_of_ecma_engine: "host_of ecma_engine = ecma_host"
  by (simp add: host_of_def ecma_host_def matches_from_regex_matchAll)
     (simp add: ecma_engine_def)

section \<open>The detector on a concrete store\<close>

text \<open>
  \<open>matchAll\<close> starts at the \<open>lastIndex\<close> of the \<open>RegExp\<close> it is given: on a \<open>RegExp\<close> that
  an earlier search has left at index 1 it misses what lies before. A detector that
  kept its \<open>RegExp\<close> objects between calls would depend on what the earlier calls left
  in them; \<open>detectInText\<close> builds a new one, with \<open>lastIndex\<close> 0, for every pattern in
  every call.
\<close>

lemma matchAll_reads_lastIndex:
  "fst (String_matchAll ecma_engine (js ''12 34'') 0 (digits_store 0)) =
     [(0, js ''12''), (3, js ''34'')] \<and>
   fst (String_matchAll ecma_engine (js ''12 34'') 0 (digits_store 1)) =
     [(1, js ''2''), (3, js ''34'')]"
proof -
  let ?re = "Repeat (Chars cs_digit) 1 None True"
  have "matches_from ecma_engine ?re (js ''12 34'') 0 = [(0, js ''12''), (3, js ''34'')]"
    using matches_from_matchAll_loop [of 0 "js ''12 34''" 6 ?re]
    by (simp add: state_at_def unit_before_def detect_eval)
  moreover have "matches_from ecma_engine ?re (js ''12 34'') 1 = [(1, js ''2''), (3, js ''34'')]"
    using matches_from_matchAll_loop [of 1 "js ''12 34''" 5 ?re]
    by (simp add: state_at_def unit_before_def detect_eval)
  ultimately show ?thesis
    by (simp add: String_matchAll_matches digits_store_def)
qed

text \<open>
  The constructor and \<open>updateSettings\<close> on the store give the detector what they give it
  by value. Where the settings carry patterns of their own, the detector holds the
  very array of the settings object: whoever changes that array in place changes what
  the detector holds, with no call of \<open>updateSettings\<close>.
\<close>

lemma updateSettings_heap_held:
  assumes "obj_patterns (settings_at H settings) < next_addr H"
  shows "held (updateSettings_heap this settings H) this =
           updateSettings (settings_value H settings) (held H this)"
  using assms
  by (simp add: updateSettings_heap_def initializePatterns_heap_def getAllPatterns_heap_def
        held_def settings_value_def updateSettings_def initializePatterns_def Let_def)

lemma updateSettings_heap_shares:
  assumes "array_at H (obj_patterns (settings_at H settings)) \<noteq> []"
    and "obj_patterns (settings_at H settings) < next_addr H"
  shows "patterns_field (detector_at (updateSettings_heap this settings H) this) =
           obj_patterns (settings_at H settings)"
  using assms
  by (simp add: updateSettings_heap_def initializePatterns_heap_def getAllPatterns_heap_def Let_def)

lemma detector_store_held:
  "held (detector_store sens) 2 = new_PIIDetector (default_settings sens) \<and>
   held (used_store sens) 2 = new_PIIDetector (default_settings sens)"
  by (simp add: used_store_def detector_store_def settings_store_def new_PIIDetector_heap_def
        updateSettings_heap_def initializePatterns_heap_def getAllPatterns_heap_def held_def
        settings_value_def new_PIIDetector_def initializePatterns_def default_settings_def Let_def)

theorem detectPII_repeatable_witness:
  "fst (detectPII_heap ecma_engine 2
          [\<lparr>parentElement = Some (plain_element 1 ''P''),
            textContent = Some (js ''Contact: test@example.com'')\<rparr>] (detector_store high)) =
   Inr [\<lparr>matchText = js ''test@example.com'', startIndex = 9, endIndex = 25, type = js ''email'',
         element = plain_element 1 ''P'', match_maskingType = BLUR\<rparr>] \<and>
   fst (detectPII_heap ecma_engine 2
          [\<lparr>parentElement = Some (plain_element 1 ''P''),
            textContent = Some (js ''Contact: test@example.com'')\<rparr>] (used_store high)) =
   fst (detectPII_heap ecma_engine 2
          [\<lparr>parentElement = Some (plain_element 1 ''P''),
            textContent = Some (js ''Contact: test@example.com'')\<rparr>] (detector_store high)) \<and>
   (case detectPII_heap ecma_engine 2
           [\<lparr>parentElement = Some (plain_element 1 ''P''),
             textContent = Some (js ''Contact: test@example.com'')\<rparr>] (detector_store high) of
      (out1, H1) \<Rightarrow>
        (case run_calls ecma_engine 2 [DetectPII [text_node (plain_element 3 ''B'') ''a@b.co'']] H1 of
           (outs, H2) \<Rightarrow>
             (case detectPII_heap ecma_engine 2
                     [\<lparr>parentElement = Some (plain_element 1 ''P''),
                       textContent = Some (js ''Contact: test@example.com'')\<rparr>] H2 of
                (out2, H3) \<Rightarrow> out2 = out1 \<and> held H3 2 = held (detector_store high) 2)))"
proof -
  let ?ns = "[\<lparr>parentElement = Some (plain_element 1 ''P''),
               textContent = Some (js ''Contact: test@example.com'')\<rparr>]"
  let ?between = "[DetectPII [text_node (plain_element 3 ''B'') ''a@b.co'']]"
  have same: "held (detector_store high) 2 = held (used_store high) 2"
    by (simp add: detector_store_held)
  have between: "\<forall>c \<in> set ?between. \<exists>ns. c = DetectPII ns" by simp
  have "fst (detectPII_heap ecma_engine 2 ?ns (detector_store high)) =
          detectPII ecma_host (new_PIIDetector (default_settings high)) ?ns"
    by (simp add: detectPII_heap_held host_of_ecma_engine detector_store_held)
  also have "\<dots> = Inr [\<lparr>matchText = js ''test@example.com'', startIndex = 9, endIndex = 25,
                          type = js ''email'', element = plain_element 1 ''P'',
                          match_maskingType = BLUR\<rparr>]"
    using eval_contact [of "default_settings high" "plain_element 1 ''P''"]
    by (simp add: default_settings_def getMaskingType_def new_PIIDetector_def js_simps)
  finally show ?thesis
    using detectPII_repeatable [of "detector_store high" 2 "used_store high" ecma_engine ?ns ?between]
      same between
    by simp
qed

end
